theory Spec2Isabelle
  imports Main "HOL-Library.Sublist" "HOL-Library.AList"
begin

unbundle bit_operations_syntax

section \<open>Victron BLE HTTP gateway: the script as a state machine\<close>

text \<open>
  The script \<^verbatim>\<open>victron-ble-http-gateway.js\<close> keeps its state in module-level variables
  and is driven by three kinds of callbacks: BLE scan results (\<^verbatim>\<open>onBle\<close>), timers
  (\<^verbatim>\<open>resetBusy\<close>, \<^verbatim>\<open>cleanupLastSent\<close>) and HTTP completions (\<^verbatim>\<open>httpCallback\<close>).
  Each handler is a function on a record of the variables together with what the platform
  holds for the script: the clock, the armed one-shot timers and the HTTP calls whose
  callback has not run yet. JavaScript numbers are integers here (seconds, counters and
  ids stay far below \<open>2^53\<close>); byte strings are \<^typ>\<open>string\<close>. \<^verbatim>\<open>print\<close> has no effect on
  the state and is left out, and with it the \<^verbatim>\<open>DBG\<close> flag. The JSON body of the request is
  kept as the values it is built from.
\<close>

subsection \<open>User configuration\<close>

text \<open>
  The three settings that the handlers read, with the values the script ships with. The
  capacity is a count, hence a natural number.
\<close>

record config =
  MFG :: "int list"
  RATE_LIMIT_SEC :: int
  MAX_LASTSENT_ENTRIES :: nat

definition default_config :: config where
  "default_config =
     \<lparr>MFG = [0x0499, 0x0059, 0x0067, 0x02E1, 0x0F53],
      RATE_LIMIT_SEC = 5,
      MAX_LASTSENT_ENTRIES = 50\<rparr>"

subsection \<open>Strings: \<^verbatim>\<open>toString(16)\<close>, \<^verbatim>\<open>toUpperCase\<close>, \<^verbatim>\<open>indexOf\<close>\<close>

text \<open>
  \<^verbatim>\<open>toString(16)\<close> of a non-negative integer: lower-case digits, no leading zero.
  \<^verbatim>\<open>toUpperCase\<close> changes the ASCII letters only, as on the byte strings of the platform;
  the script applies it to hexadecimal digits and to device addresses.
\<close>

definition hexDigit :: "nat \<Rightarrow> char" where
  "hexDigit n = ''0123456789abcdef'' ! n"

fun toString16 :: "nat \<Rightarrow> string" where
  "toString16 n = (if n < 16 then [hexDigit n] else toString16 (n div 16) @ [hexDigit (n mod 16)])"

declare toString16.simps [simp del]

definition upperChar :: "char \<Rightarrow> char" where
  "upperChar c =
     (let n = (of_char c :: nat) in if 97 \<le> n \<and> n \<le> 122 then char_of (n - 32) else c)"

definition toUpperCase :: "string \<Rightarrow> string" where
  "toUpperCase s = map upperChar s"

text \<open>\<^verbatim>\<open>s.indexOf(p)\<close>: the first position where \<open>p\<close> starts in \<open>s\<close>, or \<open>-1\<close>.\<close>

fun indexOf :: "string \<Rightarrow> string \<Rightarrow> int" where
  "indexOf [] p = (if p = [] then 0 else - 1)"
| "indexOf (c # cs) p =
     (if prefix p (c # cs) then 0
      else (let r = indexOf cs p in if r = - 1 then - 1 else r + 1))"

subsection \<open>\<^verbatim>\<open>hex\<close> and \<^verbatim>\<open>hasMfg\<close>\<close>

definition pad2 :: "string \<Rightarrow> string" where
  "pad2 h = (if length h = 1 then ''0'' @ h else h)"

fun hex_loop :: "string \<Rightarrow> string \<Rightarrow> string" where
  "hex_loop r [] = r"
| "hex_loop r (c # s) = hex_loop (r @ pad2 (toString16 (of_char c))) s"

definition hex :: "string \<Rightarrow> string" where
  "hex s = toUpperCase (hex_loop [] s)"

text \<open>
  The bitwise operators of JavaScript work on the 32-bit two's complement value of their
  operand; \<open>>>\<close> keeps the sign.
\<close>

definition toInt32 :: "int \<Rightarrow> int" where
  "toInt32 x = (x + 2147483648) mod 4294967296 - 2147483648"

definition mfgPattern :: "int \<Rightarrow> string" where
  "mfgPattern i =
     (let lo = toString16 (nat (toInt32 i AND 255));
          hi = toString16 (nat (drop_bit 8 (toInt32 i) AND 255));
          lo = pad2 lo;
          hi = pad2 hi
      in ''FF'' @ toUpperCase lo @ toUpperCase hi)"

fun hasMfg_loop :: "string \<Rightarrow> int list \<Rightarrow> bool" where
  "hasMfg_loop d [] = False"
| "hasMfg_loop d (i # ids) =
     (if indexOf d (mfgPattern i) \<noteq> - 1 then True else hasMfg_loop d ids)"

definition hasMfg :: "string \<Rightarrow> int list \<Rightarrow> bool" where
  "hasMfg d ids = (if length ids = 0 then True else hasMfg_loop d ids)"

subsection \<open>The variables of the script and the platform's side\<close>

record http_response =
  code :: int
  body :: "string option"

text \<open>
  An HTTP call that the script has issued and whose callback has not run. \<open>watchdog\<close> is
  the timer that was armed for the call and \<open>timed_out\<close> tells that this timer has
  fired; no handler reads these two fields, they are there to state properties.
\<close>

record http_call =
  call_id :: nat
  watchdog :: "nat option"
  timed_out :: bool
  tag_mac :: string
  tag_rssi :: int
  tag_data :: string
  tag_ts :: int

record world =
  busy :: bool
  lastSent :: "(string \<times> int) list"
  currentMac :: string
  busyTimer :: "nat option"
  consecutiveErrors :: int
  backoffUntil :: int
  clock :: int
  timers :: "(nat \<times> int) list"
  nextTimer :: nat
  calls :: "http_call list"
  nextCall :: nat

text \<open>
  \<open>lastSent\<close> is the object used as a dictionary: its keys are distinct and are listed in
  the order of insertion. \<open>clock\<close> is \<^verbatim>\<open>Date.now()\<close> in milliseconds; \<open>timers\<close> holds each
  armed one-shot timer with the time at which it is due. \<^verbatim>\<open>Timer.set\<close> hands out a fresh
  handle, \<^verbatim>\<open>Timer.clear\<close> disarms, \<^verbatim>\<open>Shelly.call\<close> of \<^verbatim>\<open>HTTP.POST\<close> adds an outstanding call.
  \<^verbatim>\<open>gwMac\<close> only enters the request body and is left out.
\<close>

definition init_world :: world where
  "init_world =
     \<lparr>busy = False, lastSent = [], currentMac = [], busyTimer = None,
      consecutiveErrors = 0, backoffUntil = 0,
      clock = 0, timers = [], nextTimer = 0, calls = [], nextCall = 0\<rparr>"

definition now_sec :: "world \<Rightarrow> int" where
  "now_sec w = clock w div 1000"

definition Timer_set :: "int \<Rightarrow> world \<Rightarrow> nat \<times> world" where
  "Timer_set ms w =
     (nextTimer w,
      w\<lparr>timers := timers w @ [(nextTimer w, clock w + ms)], nextTimer := nextTimer w + 1\<rparr>)"

definition Timer_clear :: "nat \<Rightarrow> world \<Rightarrow> world" where
  "Timer_clear h w = w\<lparr>timers := filter (\<lambda>t. fst t \<noteq> h) (timers w)\<rparr>"

definition HTTP_POST :: "string \<Rightarrow> int \<Rightarrow> string \<Rightarrow> int \<Rightarrow> world \<Rightarrow> world" where
  "HTTP_POST mac rssi d ts w =
     w\<lparr>calls := calls w @
          [\<lparr>call_id = nextCall w, watchdog = busyTimer w, timed_out = False,
            tag_mac = mac, tag_rssi = rssi, tag_data = d, tag_ts = ts\<rparr>],
       nextCall := nextCall w + 1\<rparr>"

subsection \<open>The handlers\<close>

definition applyBackoff :: "world \<Rightarrow> world" where
  "applyBackoff w =
     (if consecutiveErrors w \<le> 3 then w
      else (let backoffSec = min 60 (consecutiveErrors w * 5)
            in w\<lparr>backoffUntil := now_sec w + backoffSec\<rparr>))"

definition httpCallback :: "http_response option \<Rightarrow> int \<Rightarrow> world \<Rightarrow> world" where
  "httpCallback r e w =
     (let w1 = w\<lparr>busy := False\<rparr>;
          w2 = (case busyTimer w1 of
                  None \<Rightarrow> w1
                | Some h \<Rightarrow> (Timer_clear h w1)\<lparr>busyTimer := None\<rparr>)
      in if e \<noteq> 0
         then applyBackoff (w2\<lparr>consecutiveErrors := consecutiveErrors w2 + 1\<rparr>)
         else (case r of
                 Some resp \<Rightarrow>
                   if code resp \<noteq> 200
                   then applyBackoff (w2\<lparr>consecutiveErrors := consecutiveErrors w2 + 1\<rparr>)
                   else w2\<lparr>consecutiveErrors := 0, backoffUntil := 0\<rparr>
               | None \<Rightarrow> applyBackoff (w2\<lparr>consecutiveErrors := consecutiveErrors w2 + 1\<rparr>)))"

definition resetBusy :: "world \<Rightarrow> world" where
  "resetBusy w =
     (let w1 = w\<lparr>busy := False, busyTimer := None\<rparr>
      in applyBackoff (w1\<lparr>consecutiveErrors := consecutiveErrors w1 + 1\<rparr>))"

text \<open>
  \<^verbatim>\<open>cleanupLastSent\<close> lists the keys in the order \<^verbatim>\<open>for ... in\<close> gives them, pairs each with
  its age and sorts by falling age with the comparator \<open>b.age - a.age\<close>. \<open>sort_key\<close> is an
  insertion sort that keeps equal ages in their order. \<open>ageOf\<close> is only applied to keys
  of the store, so its \<open>None\<close> case is never taken.
\<close>

definition ageOf :: "int \<Rightarrow> (string \<times> int) list \<Rightarrow> string \<Rightarrow> int" where
  "ageOf now ls k = (case map_of ls k of Some v \<Rightarrow> now - v | None \<Rightarrow> 0)"

definition cleanupLastSent :: "config \<Rightarrow> world \<Rightarrow> world" where
  "cleanupLastSent cfg w =
     (let keys = map fst (lastSent w)
      in if length keys \<le> MAX_LASTSENT_ENTRIES cfg then w
         else (let now = now_sec w;
                   oldest = map (\<lambda>k. (k, ageOf now (lastSent w) k)) keys;
                   oldest = sort_key (\<lambda>a. - snd a) oldest;
                   toRemove = length keys - MAX_LASTSENT_ENTRIES cfg
               in w\<lparr>lastSent :=
                      fold (\<lambda>a ls. AList.delete (fst a) ls) (take toRemove oldest) (lastSent w)\<rparr>))"

definition send :: "string \<Rightarrow> int \<Rightarrow> string \<Rightarrow> world \<Rightarrow> world" where
  "send mac rssi d w =
     (if busy w then w
      else (let now = now_sec w
            in if backoffUntil w > now then w
               else (let ts = now;
                         w1 = w\<lparr>currentMac := mac, busy := True\<rparr>;
                         (h, w2) = Timer_set 10000 w1;
                         w3 = w2\<lparr>busyTimer := Some h\<rparr>
                     in HTTP_POST mac rssi d ts w3)))"

text \<open>
  The scanner's event kinds; \<^verbatim>\<open>onBle\<close> only compares with \<^verbatim>\<open>BLE.Scanner.SCAN_RESULT\<close>. A
  missing result object, address or payload is \<open>None\<close>; an empty string is falsy as well.
\<close>

datatype ble_event = SCAN_START | SCAN_STOP | SCAN_RESULT

record scan_result =
  addr :: "string option"
  advData :: "string option"
  rssi :: int

fun addColons :: "bool \<Rightarrow> string \<Rightarrow> string" where
  "addColons first [] = []"
| "addColons first [a] = (if first then [] else '':'') @ [a]"
| "addColons first (a # b # rest) = (if first then [] else '':'') @ [a, b] @ addColons False rest"

definition lastSentOr0 :: "(string \<times> int) list \<Rightarrow> string \<Rightarrow> int" where
  "lastSentOr0 ls m = (case map_of ls m of Some v \<Rightarrow> v | None \<Rightarrow> 0)"

definition onBle :: "config \<Rightarrow> ble_event \<Rightarrow> scan_result option \<Rightarrow> world \<Rightarrow> world" where
  "onBle cfg ev res w =
     (if ev \<noteq> SCAN_RESULT then w
      else (case res of
              None \<Rightarrow> w
            | Some r \<Rightarrow>
               (case addr r of
                  None \<Rightarrow> w
                | Some a \<Rightarrow>
                   if a = [] then w
                   else (let d = (case advData r of
                                    None \<Rightarrow> []
                                  | Some p \<Rightarrow> if p = [] then [] else hex p)
                         in if length d = 0 \<or> \<not> hasMfg d (MFG cfg) then w
                            else (let m = toUpperCase a;
                                      m = (if indexOf m '':'' = - 1 then addColons True m else m);
                                      now = now_sec w
                                  in if now - lastSentOr0 (lastSent w) m < RATE_LIMIT_SEC cfg then w
                                     else send m (rssi r) d
                                            (w\<lparr>lastSent := AList.update m now (lastSent w)\<rparr>))))))"

subsection \<open>The event loop\<close>

text \<open>
  One callback runs at a time. A timer fires when it is armed and due; it is one-shot, so
  firing disarms it. A completion runs for a call that is still outstanding, once.
  \<open>Tick\<close> lets time pass. The cleanup timer repeats for ever and is always armed.
\<close>

datatype event =
    Adv ble_event "scan_result option"
  | Fire nat
  | Complete nat "http_response option" int
  | Cleanup
  | Tick nat

definition fire :: "nat \<Rightarrow> world \<Rightarrow> world" where
  "fire h w =
     w\<lparr>timers := filter (\<lambda>t. fst t \<noteq> h) (timers w),
       calls := map (\<lambda>c. if watchdog c = Some h then c\<lparr>timed_out := True\<rparr> else c) (calls w)\<rparr>"

definition step :: "config \<Rightarrow> event \<Rightarrow> world \<Rightarrow> world option" where
  "step cfg e w =
     (case e of
        Adv ev res \<Rightarrow> Some (onBle cfg ev res w)
      | Fire h \<Rightarrow>
          (case map_of (timers w) h of
             None \<Rightarrow> None
           | Some due \<Rightarrow> if clock w < due then None else Some (resetBusy (fire h w)))
      | Complete i r ec \<Rightarrow>
          if i \<in> set (map call_id (calls w))
          then Some (httpCallback r ec (w\<lparr>calls := filter (\<lambda>c. call_id c \<noteq> i) (calls w)\<rparr>))
          else None
      | Cleanup \<Rightarrow> Some (cleanupLastSent cfg w)
      | Tick ms \<Rightarrow> Some (w\<lparr>clock := clock w + int ms\<rparr>))"

fun run :: "config \<Rightarrow> event list \<Rightarrow> world \<Rightarrow> world option" where
  "run cfg [] w = Some w"
| "run cfg (e # es) w = (case step cfg e w of None \<Rightarrow> None | Some w' \<Rightarrow> run cfg es w')"

subsection \<open>Notions used in the statements\<close>

text \<open>The outcome of a completion as \<^verbatim>\<open>httpCallback\<close> classifies it.\<close>

definition http_failed :: "http_response option \<Rightarrow> int \<Rightarrow> bool" where
  "http_failed r e = (e \<noteq> 0 \<or> (case r of None \<Rightarrow> True | Some resp \<Rightarrow> code resp \<noteq> 200))"

text \<open>
  The filter as the specification words it: a byte is two upper-case hexadecimal digits,
  a manufacturer id is its low byte followed by its high byte, the payload is the bytes
  one after the other.
\<close>

definition spec_hex_byte :: "nat \<Rightarrow> string" where
  "spec_hex_byte b = [''0123456789ABCDEF'' ! (b div 16), ''0123456789ABCDEF'' ! (b mod 16)]"

definition spec_le16_hex :: "int \<Rightarrow> string" where
  "spec_le16_hex i = spec_hex_byte (nat (i mod 256)) @ spec_hex_byte (nat (i div 256 mod 256))"

definition spec_payload_hex :: "string \<Rightarrow> string" where
  "spec_payload_hex p = concat (map (\<lambda>c. spec_hex_byte (of_char c)) p)"

text \<open>The key under which \<^verbatim>\<open>onBle\<close> records a device: the address as it normalises it.\<close>

definition deviceKey :: "string \<Rightarrow> string" where
  "deviceKey a =
     (let m = toUpperCase a in if indexOf m '':'' = - 1 then addColons True m else m)"

text \<open>
  A delivery is in flight from the moment \<^verbatim>\<open>send\<close> issues its call until the completion
  callback of that call runs or the watchdog armed for it fires.
\<close>

definition in_flight :: "world \<Rightarrow> http_call list" where
  "in_flight w = filter (\<lambda>c. \<not> timed_out c) (calls w)"

text \<open>A completion is stale when the watchdog of its call has fired before it runs.\<close>

definition stale_completion :: "event \<Rightarrow> world \<Rightarrow> bool" where
  "stale_completion e w =
     (case e of
        Complete i r ec \<Rightarrow> list_ex (\<lambda>c. call_id c = i \<and> timed_out c) (calls w)
      | _ \<Rightarrow> False)"

fun no_stale :: "config \<Rightarrow> event list \<Rightarrow> world \<Rightarrow> bool" where
  "no_stale cfg [] w = True"
| "no_stale cfg (e # es) w =
     (\<not> stale_completion e w \<and>
      (case step cfg e w of None \<Rightarrow> True | Some w' \<Rightarrow> no_stale cfg es w'))"

text \<open>An event is quiet when it is neither a completion nor a timer firing.\<close>

definition quiet :: "event \<Rightarrow> bool" where
  "quiet e = (case e of Fire h \<Rightarrow> False | Complete i r ec \<Rightarrow> False | _ \<Rightarrow> True)"

text \<open>The watchdog is armed exactly while \<open>busy\<close> is set, and it is the only one-shot timer.\<close>

definition slot_inv :: "world \<Rightarrow> bool" where
  "slot_inv w =
     ((busy w \<longleftrightarrow> busyTimer w \<noteq> None) \<and>
      map fst (timers w) = (case busyTimer w of None \<Rightarrow> [] | Some h \<Rightarrow> [h]))"

text \<open>
  Without stale completions the delivery in flight, if any, is the one \<open>busy\<close> stands for,
  and its watchdog is the armed one.
\<close>

definition flight_inv :: "world \<Rightarrow> bool" where
  "flight_inv w =
     (case in_flight w of
        [] \<Rightarrow> \<not> busy w
      | [c] \<Rightarrow> busy w \<and> watchdog c = busyTimer w
      | _ \<Rightarrow> False)"

text \<open>
  What the backoff variables satisfy in every reachable state: up to three errors there is
  no cooldown; from the fourth on \<open>backoffUntil\<close> is the time of some earlier moment plus the
  cooldown for the current count.
\<close>

definition backoff_inv :: "world \<Rightarrow> bool" where
  "backoff_inv w =
     (0 \<le> clock w \<and> 0 \<le> consecutiveErrors w \<and>
      (if consecutiveErrors w \<le> 3 then backoffUntil w = 0
       else min 60 (consecutiveErrors w * 5) \<le> backoffUntil w \<and>
            backoffUntil w \<le> now_sec w + min 60 (consecutiveErrors w * 5)))"

text \<open>A timer handle that is not armed and has been handed out is never armed again.\<close>

definition retired :: "nat \<Rightarrow> world \<Rightarrow> bool" where
  "retired h w = (h \<notin> fst ` set (timers w) \<and> h < nextTimer w)"

text \<open>Example inputs: payloads, an advertisement, configurations and responses.\<close>

definition victron_payload :: string where
  "victron_payload = [CHR 0x02, CHR 0x01, CHR 0x06, CHR 0xFF, CHR 0x99, CHR 0x04]"

definition other_payload :: string where
  "other_payload = [CHR 0x02, CHR 0x01, CHR 0x06, CHR 0xFF, CHR 0xAA, CHR 0x01]"

definition unaligned_payload :: string where
  "unaligned_payload = [CHR 0x0F, CHR 0xF9, CHR 0x90, CHR 0x4A]"

definition victron_adv :: scan_result where
  "victron_adv = \<lparr>addr = Some ''aabbccddeeff'', advData = Some victron_payload, rssi = - 67\<rparr>"

definition small_config :: config where
  "small_config = default_config\<lparr>MAX_LASTSENT_ENTRIES := 2\<rparr>"

definition three_devices :: world where
  "three_devices =
     init_world\<lparr>clock := 100000,
       lastSent := [(''AA:00'', 90), (''BB:00'', 50), (''CC:00'', 95)]\<rparr>"

definition victron_event :: event where
  "victron_event = Adv SCAN_RESULT (Some victron_adv)"

definition http_ok :: http_response where
  "http_ok = \<lparr>code = 200, body = None\<rparr>"

definition http_500 :: http_response where
  "http_500 = \<lparr>code = 500, body = None\<rparr>"

text \<open>
  Runs of the event loop. In \<open>eviction_run\<close> fifty other devices advertise one second
  after the first one, and the cleanup timer fires before the first device advertises
  again. In \<open>disarmed_run\<close> and \<open>late_completion_run\<close> the first call is released by the
  watchdog after ten seconds, a second call is issued, and only then the completion of the
  first call arrives; five seconds later the device advertises again.
\<close>

definition nth_address :: "nat \<Rightarrow> string" where
  "nth_address n = spec_hex_byte n @ '':00:AA:BB:CC:DD''"

definition nth_device :: "nat \<Rightarrow> scan_result" where
  "nth_device n = victron_adv\<lparr>addr := Some (nth_address n)\<rparr>"

definition crowd :: "event list" where
  "crowd = map (\<lambda>n. Adv SCAN_RESULT (Some (nth_device n))) [0..<50]"

definition eviction_run :: "event list" where
  "eviction_run =
     [Tick 100000, victron_event, Tick 1000] @ crowd @
     [Cleanup, Tick 1000, Complete 0 (Some http_ok) 0, victron_event]"

definition plain_run :: "event list" where
  "plain_run =
     [Tick 100000, victron_event, Complete 0 (Some http_ok) 0, Tick 5000, victron_event]"

definition watchdog_run :: "event list" where
  "watchdog_run = [Tick 100000, victron_event, Tick 10000, Fire 0]"

definition failures_run :: "event list" where
  "failures_run =
     [Tick 100000, victron_event, Complete 0 (Some http_500) 0,
      Tick 5000, victron_event, Complete 1 (Some http_500) 0,
      Tick 5000, victron_event, Complete 2 (Some http_500) 0,
      Tick 5000, victron_event, Complete 3 (Some http_500) 0,
      Tick 21000]"

definition waiting_run :: "event list" where
  "waiting_run = [Tick 4000, victron_event, Cleanup, Tick 6000]"

definition disarmed_run :: "event list" where
  "disarmed_run =
     [Tick 100000, victron_event, Tick 10000, Fire 0, victron_event,
      Complete 0 (Some http_ok) 0]"

definition late_completion_run :: "event list" where
  "late_completion_run =
     [Tick 100000, victron_event, Tick 10000, Fire 0, victron_event,
      Complete 0 (Some http_ok) 0, Tick 5000, victron_event]"

section \<open>Strings\<close>

lemma indexOf_range: "indexOf d p = - 1 \<or> 0 \<le> indexOf d p"
  by (induction d) (auto simp: Let_def)

lemma indexOf_sublist: "(indexOf d p \<noteq> - 1) = sublist p d"
proof (induction d)
  case Nil
  then show ?case by auto
next
  case (Cons c cs)
  have "indexOf cs p = - 1 \<or> 0 \<le> indexOf cs p" by (rule indexOf_range)
  with Cons show ?case
    by (auto simp: Let_def sublist_Cons_right)
qed

lemma hasMfg_loop_sublist: "hasMfg_loop d ids = (\<exists>i \<in> set ids. sublist (mfgPattern i) d)"
  by (induction ids) (auto simp: indexOf_sublist)

lemma toInt32_signed: "toInt32 i = signed_take_bit 31 i"
  by (simp add: toInt32_def signed_take_bit_eq_take_bit_shift take_bit_eq_mod)

lemma mask8: "(255 :: int) = mask 8"
  by (simp add: mask_eq_exp_minus_1)

lemma toInt32_low: "toInt32 i AND 255 = i mod 256"
proof -
  have "toInt32 i AND 255 = take_bit 8 (signed_take_bit 31 i)"
    unfolding mask8 toInt32_signed by (rule take_bit_eq_mask [symmetric])
  also have "\<dots> = take_bit 8 i"
    by (rule take_bit_signed_take_bit) simp
  finally show ?thesis by (simp add: take_bit_eq_mod)
qed

lemma toInt32_high: "drop_bit 8 (toInt32 i) AND 255 = i div 256 mod 256"
proof -
  have "drop_bit 8 (toInt32 i) AND 255 = take_bit 8 (drop_bit 8 (signed_take_bit 31 i))"
    unfolding mask8 toInt32_signed by (rule take_bit_eq_mask [symmetric])
  also have "\<dots> = drop_bit 8 (take_bit 16 (signed_take_bit 31 i))"
    by (simp add: take_bit_drop_bit)
  also have "take_bit 16 (signed_take_bit 31 i) = take_bit 16 i"
    by (rule take_bit_signed_take_bit) simp
  also have "drop_bit 8 (take_bit 16 i) = take_bit 8 (drop_bit 8 i)"
    by (simp add: take_bit_drop_bit)
  finally show ?thesis by (simp add: take_bit_eq_mod drop_bit_eq_div)
qed

lemma upper_hexDigit_all:
  "list_all (\<lambda>k. upperChar (hexDigit k) = ''0123456789ABCDEF'' ! k) [0..<16]"
  by code_simp

lemma upper_hexDigit: "k < 16 \<Longrightarrow> upperChar (hexDigit k) = ''0123456789ABCDEF'' ! k"
  using upper_hexDigit_all by (simp add: list_all_iff)

lemma upper_zero: "upperChar CHR ''0'' = CHR ''0''"
  by code_simp

lemma byte_hex: "b < 256 \<Longrightarrow> toUpperCase (pad2 (toString16 b)) = spec_hex_byte b"
proof (cases "b < 16")
  case True
  then show ?thesis
    by (simp add: toString16.simps [of b] pad2_def toUpperCase_def spec_hex_byte_def
        upper_hexDigit upper_zero)
next
  case False
  assume "b < 256"
  then have "b div 16 < 16" by simp
  with False show ?thesis
    by (simp add: toString16.simps [of b] toString16.simps [of "b div 16"] pad2_def
        toUpperCase_def spec_hex_byte_def upper_hexDigit)
qed

lemma mfgPattern_spec: "mfgPattern i = ''FF'' @ spec_le16_hex i"
proof -
  have lo: "nat (i mod 256) < 256" by simp
  have hi: "nat (i div 256 mod 256) < 256" by simp
  show ?thesis
    by (simp add: mfgPattern_def Let_def toInt32_low toInt32_high spec_le16_hex_def
        byte_hex [OF lo] byte_hex [OF hi])
qed

lemma hex_loop_append:
  "hex_loop r s = r @ concat (map (\<lambda>c. pad2 (toString16 (of_char c))) s)"
  by (induction s arbitrary: r) auto

lemma hex_spec: "hex p = spec_payload_hex p"
proof -
  have "of_char c < (256 :: nat)" for c :: char by simp
  then have "toUpperCase (pad2 (toString16 (of_char c))) = spec_hex_byte (of_char c)" for c :: char
    by (rule byte_hex)
  then have "toUpperCase (concat (map (\<lambda>c. pad2 (toString16 (of_char c))) p)) = spec_payload_hex p"
    unfolding spec_payload_hex_def
    by (induction p) (simp_all add: toUpperCase_def)
  then show ?thesis by (simp add: hex_def hex_loop_append)
qed

section \<open>The filter\<close>

text \<open>
  Claim C7. With an empty allow-list every payload qualifies. With a non-empty one a payload
  qualifies exactly when its upper-case hexadecimal encoding contains \<open>FF\<close> followed by the
  low byte and then the high byte of some listed id, two upper-case digits each; \<^verbatim>\<open>hex\<close> is
  that encoding. For the list \<open>[0x0499]\<close> the pattern is \<open>FF9904\<close>: a payload containing it
  qualifies, one that does not contain it (say one with \<open>FFAA01\<close> only) does not.
\<close>

theorem filter_qualification:
  "hasMfg (hex p) []
   \<and> (ids \<noteq> [] \<longrightarrow>
        hasMfg (hex p) ids =
          (\<exists>i \<in> set ids. sublist (''FF'' @ spec_le16_hex i) (spec_payload_hex p)))
   \<and> hex p = spec_payload_hex p
   \<and> (sublist ''FF9904'' (hex p) \<longrightarrow> hasMfg (hex p) [0x0499])
   \<and> (\<not> sublist ''FF9904'' (hex p) \<longrightarrow> \<not> hasMfg (hex p) [0x0499])"
proof -
  have a: "hasMfg (hex p) []" by (simp add: hasMfg_def)
  have b: "hasMfg (hex p) ids =
      (\<exists>i \<in> set ids. sublist (''FF'' @ spec_le16_hex i) (spec_payload_hex p))"
    if "ids \<noteq> []" for ids
    using that by (simp add: hasMfg_def hasMfg_loop_sublist mfgPattern_spec hex_spec)
  have c: "''FF'' @ spec_le16_hex 0x0499 = ''FF9904''"
    by (simp add: spec_le16_hex_def spec_hex_byte_def)
  have d: "hasMfg (hex p) [0x0499] = sublist ''FF9904'' (hex p)"
    using b [of "[0x0499]"] c by (simp add: hex_spec)
  show ?thesis using a b d hex_spec by blast
qed

theorem filter_qualification_witness:
  "hasMfg (hex victron_payload) [0x0499] \<and> \<not> hasMfg (hex other_payload) [0x0499]
   \<and> sublist ''FF9904'' (hex victron_payload)
   \<and> sublist ''FFAA01'' (hex other_payload)
   \<and> hasMfg (hex other_payload) []"
proof -
  have v: "hex victron_payload = ''020106FF9904''" by code_simp
  have o: "hex other_payload = ''020106FFAA01''" by code_simp
  have sv: "sublist ''FF9904'' (hex victron_payload)" unfolding v by code_simp
  have so: "\<not> sublist ''FF9904'' (hex other_payload)" unfolding o by code_simp
  have so': "sublist ''FFAA01'' (hex other_payload)" unfolding o by code_simp
  from sv so so' filter_qualification [of victron_payload "[0x0499]"]
    filter_qualification [of other_payload "[0x0499]"]
  show ?thesis by blast
qed

text \<open>
  Claim C9. The match is not aligned to bytes: the payload \<open>0F F9 90 4A\<close> has no byte
  \<open>0xFF\<close>, its encoding \<open>0FF9904A\<close> contains \<open>FF9904\<close> from the second digit on, and it
  qualifies for the id \<open>0x0499\<close>.
\<close>

theorem match_not_byte_aligned:
  "hex unaligned_payload = ''0FF9904A''
   \<and> CHR 0xFF \<notin> set unaligned_payload
   \<and> hasMfg (hex unaligned_payload) [0x0499]
   \<and> hasMfg (hex unaligned_payload) (MFG default_config)"
  by code_simp

section \<open>Events that are not usable scan results\<close>

text \<open>
  Claim C10. An event that is not a scan result, or has no result object, no (or an empty)
  address, or no (or an empty) payload, leaves every variable, every timer and every
  outstanding call as it was: the handler returns the state it was given.
\<close>

theorem onBle_ignores_unusable:
  assumes "ev \<noteq> SCAN_RESULT \<or> res = None
     \<or> (\<exists>r. res = Some r \<and>
           (addr r = None \<or> addr r = Some [] \<or> advData r = None \<or> advData r = Some []))"
  shows "onBle cfg ev res w = w \<and> step cfg (Adv ev res) w = Some w"
  using assms by (auto simp: onBle_def step_def split: option.splits)

theorem onBle_ignores_unusable_witness:
  "onBle default_config SCAN_STOP (Some victron_adv) init_world = init_world
   \<and> onBle default_config SCAN_RESULT None init_world = init_world
   \<and> onBle default_config SCAN_RESULT (Some (victron_adv\<lparr>addr := None\<rparr>)) init_world = init_world
   \<and> onBle default_config SCAN_RESULT (Some (victron_adv\<lparr>addr := Some []\<rparr>)) init_world = init_world
   \<and> onBle default_config SCAN_RESULT (Some (victron_adv\<lparr>advData := None\<rparr>)) init_world = init_world
   \<and> step default_config (Adv SCAN_RESULT (Some (victron_adv\<lparr>advData := Some []\<rparr>))) init_world
       = Some init_world"
  using onBle_ignores_unusable [of SCAN_STOP "Some victron_adv" default_config init_world]
    onBle_ignores_unusable [of SCAN_RESULT None default_config init_world]
    onBle_ignores_unusable [of SCAN_RESULT "Some (victron_adv\<lparr>addr := None\<rparr>)" default_config init_world]
    onBle_ignores_unusable [of SCAN_RESULT "Some (victron_adv\<lparr>addr := Some []\<rparr>)" default_config init_world]
    onBle_ignores_unusable [of SCAN_RESULT "Some (victron_adv\<lparr>advData := None\<rparr>)" default_config init_world]
    onBle_ignores_unusable [of SCAN_RESULT "Some (victron_adv\<lparr>advData := Some []\<rparr>)" default_config init_world]
  by simp

section \<open>Backoff\<close>

lemma applyBackoff_fields [simp]:
  "busy (applyBackoff w) = busy w"
  "lastSent (applyBackoff w) = lastSent w"
  "currentMac (applyBackoff w) = currentMac w"
  "busyTimer (applyBackoff w) = busyTimer w"
  "consecutiveErrors (applyBackoff w) = consecutiveErrors w"
  "clock (applyBackoff w) = clock w"
  "timers (applyBackoff w) = timers w"
  "nextTimer (applyBackoff w) = nextTimer w"
  "calls (applyBackoff w) = calls w"
  "nextCall (applyBackoff w) = nextCall w"
  by (simp_all add: applyBackoff_def Let_def)

lemma applyBackoff_until:
  "backoffUntil (applyBackoff w) =
     (if consecutiveErrors w \<le> 3 then backoffUntil w
      else now_sec w + min 60 (consecutiveErrors w * 5))"
  by (simp add: applyBackoff_def Let_def)

lemma now_sec_upd [simp]:
  "now_sec (w\<lparr>busy := b\<rparr>) = now_sec w"
  "now_sec (w\<lparr>lastSent := l\<rparr>) = now_sec w"
  "now_sec (w\<lparr>currentMac := m\<rparr>) = now_sec w"
  "now_sec (w\<lparr>busyTimer := t\<rparr>) = now_sec w"
  "now_sec (w\<lparr>consecutiveErrors := n\<rparr>) = now_sec w"
  "now_sec (w\<lparr>backoffUntil := u\<rparr>) = now_sec w"
  "now_sec (w\<lparr>timers := ts\<rparr>) = now_sec w"
  "now_sec (w\<lparr>nextTimer := nt\<rparr>) = now_sec w"
  "now_sec (w\<lparr>calls := cs\<rparr>) = now_sec w"
  "now_sec (w\<lparr>nextCall := nc\<rparr>) = now_sec w"
  by (simp_all add: now_sec_def)

lemma now_sec_applyBackoff [simp]: "now_sec (applyBackoff w) = now_sec w"
  by (simp add: now_sec_def)

lemma httpCallback_failed:
  assumes "http_failed r e"
  shows "consecutiveErrors (httpCallback r e w) = consecutiveErrors w + 1"
    and "backoffUntil (httpCallback r e w) =
      (if consecutiveErrors w + 1 \<le> 3 then backoffUntil w
       else now_sec w + min 60 ((consecutiveErrors w + 1) * 5))"
    and "now_sec (httpCallback r e w) = now_sec w"
  using assms
  by (auto simp: httpCallback_def http_failed_def Let_def Timer_clear_def applyBackoff_until
      split: option.splits)

lemma httpCallback_succeeded:
  assumes "\<not> http_failed r e"
  shows "consecutiveErrors (httpCallback r e w) = 0" and "backoffUntil (httpCallback r e w) = 0"
  using assms
  by (auto simp: httpCallback_def http_failed_def Let_def Timer_clear_def split: option.splits)

lemma resetBusy_counts:
  "consecutiveErrors (resetBusy w) = consecutiveErrors w + 1"
  "backoffUntil (resetBusy w) =
      (if consecutiveErrors w + 1 \<le> 3 then backoffUntil w
       else now_sec w + min 60 ((consecutiveErrors w + 1) * 5))"
  by (simp_all add: resetBusy_def Let_def applyBackoff_until)

text \<open>
  Claim C4. A failure (a failed completion or the watchdog) adds one to
  \<open>consecutiveErrors\<close>; when the new count is at most 3 \<open>backoffUntil\<close> keeps its value,
  otherwise it becomes now + min(60, 5 * count). A success sets both to 0. Four failures in
  a row from a count of 0 give a cooldown of 20 seconds.
\<close>

theorem backoff_policy:
  "(http_failed r e \<longrightarrow>
      consecutiveErrors (httpCallback r e w) = consecutiveErrors w + 1 \<and>
      backoffUntil (httpCallback r e w) =
        (if consecutiveErrors w + 1 \<le> 3 then backoffUntil w
         else now_sec w + min 60 ((consecutiveErrors w + 1) * 5)))
   \<and> consecutiveErrors (resetBusy w) = consecutiveErrors w + 1
   \<and> backoffUntil (resetBusy w) =
        (if consecutiveErrors w + 1 \<le> 3 then backoffUntil w
         else now_sec w + min 60 ((consecutiveErrors w + 1) * 5))
   \<and> (\<not> http_failed r e \<longrightarrow>
        consecutiveErrors (httpCallback r e w) = 0 \<and> backoffUntil (httpCallback r e w) = 0)
   \<and> (consecutiveErrors w = 0 \<and> http_failed r1 e1 \<and> http_failed r2 e2 \<and> http_failed r3 e3
        \<and> http_failed r4 e4 \<longrightarrow>
        backoffUntil (httpCallback r3 e3 (httpCallback r2 e2 (httpCallback r1 e1 w))) = backoffUntil w \<and>
        backoffUntil (httpCallback r4 e4 (httpCallback r3 e3 (httpCallback r2 e2 (httpCallback r1 e1 w))))
          = now_sec w + 20 \<and>
        backoffUntil (resetBusy (httpCallback r3 e3 (httpCallback r2 e2 (httpCallback r1 e1 w))))
          = now_sec w + 20)"
proof -
  have "backoffUntil (httpCallback r3 e3 (httpCallback r2 e2 (httpCallback r1 e1 w))) = backoffUntil w \<and>
        backoffUntil (httpCallback r4 e4 (httpCallback r3 e3 (httpCallback r2 e2 (httpCallback r1 e1 w))))
          = now_sec w + 20 \<and>
        backoffUntil (resetBusy (httpCallback r3 e3 (httpCallback r2 e2 (httpCallback r1 e1 w))))
          = now_sec w + 20"
    if "consecutiveErrors w = 0" "http_failed r1 e1" "http_failed r2 e2" "http_failed r3 e3"
      "http_failed r4 e4"
    using that by (simp add: httpCallback_failed resetBusy_counts)
  then show ?thesis
    by (simp add: httpCallback_failed httpCallback_succeeded resetBusy_counts)
qed

theorem backoff_policy_witness:
  "http_failed None 0 \<and> http_failed (Some http_500) 0 \<and> http_failed (Some http_ok) (- 1)
   \<and> \<not> http_failed (Some http_ok) 0
   \<and> consecutiveErrors (httpCallback None 0 init_world) = 1
   \<and> backoffUntil (httpCallback None 0 init_world) = 0
   \<and> backoffUntil (resetBusy (httpCallback (Some http_ok) (- 1)
         (httpCallback (Some http_500) 0 (httpCallback None 0 (init_world\<lparr>clock := 100000\<rparr>)))))
       = 120
   \<and> backoffUntil (httpCallback None 0 (httpCallback (Some http_ok) (- 1)
         (httpCallback (Some http_500) 0 (httpCallback None 0 (init_world\<lparr>clock := 100000\<rparr>)))))
       = 120
   \<and> backoffUntil (httpCallback (Some http_ok) 0 (init_world\<lparr>backoffUntil := 120\<rparr>)) = 0"
proof -
  have f: "http_failed None 0" "http_failed (Some http_500) 0" "http_failed (Some http_ok) (- 1)"
    "\<not> http_failed (Some http_ok) 0"
    by (simp_all add: http_failed_def http_500_def http_ok_def)
  have i: "consecutiveErrors init_world = 0" "backoffUntil init_world = 0"
    "consecutiveErrors (init_world\<lparr>clock := 100000\<rparr>) = 0"
    "now_sec (init_world\<lparr>clock := 100000\<rparr>) = 100"
    by (simp_all add: init_world_def now_sec_def)
  from f i backoff_policy [of None 0 init_world]
    backoff_policy [of "Some http_ok" 0 "init_world\<lparr>backoffUntil := 120\<rparr>"]
    backoff_policy [of _ _ "init_world\<lparr>clock := 100000\<rparr>" None 0 "Some http_500" 0 "Some http_ok" "- 1"
      None 0]
  show ?thesis by simp
qed

section \<open>The cleanup pass\<close>

lemma fold_delete_filter:
  "fold (\<lambda>a l. AList.delete (fst a) l) xs ls = filter (\<lambda>e. fst e \<notin> fst ` set xs) ls"
proof (induction xs arbitrary: ls)
  case Nil
  then show ?case by simp
next
  case (Cons x xs)
  have "AList.delete (fst x) ls = filter (\<lambda>e. fst e \<noteq> fst x) ls"
    by (simp add: AList.delete_eq case_prod_unfold eq_commute)
  then show ?case by (simp add: Cons.IH)
qed

lemma ageOf_entry:
  "distinct (map fst ls) \<Longrightarrow> (k, v) \<in> set ls \<Longrightarrow> ageOf now ls k = now - v"
  by (simp add: ageOf_def)

lemma removed_count:
  assumes d: "distinct (map fst ls)" and r: "distinct rs" and s: "set rs \<subseteq> fst ` set ls"
  shows "length (filter (\<lambda>e. fst e \<notin> set rs) ls) = length ls - length rs"
proof -
  have "map fst (filter (\<lambda>e. fst e \<in> set rs) ls) = filter (\<lambda>k. k \<in> set rs) (map fst ls)"
    by (simp add: filter_map comp_def)
  moreover have "distinct (filter (\<lambda>k. k \<in> set rs) (map fst ls))" using d by simp
  moreover have "set (filter (\<lambda>k. k \<in> set rs) (map fst ls)) = set rs" using s by auto
  ultimately have "length (filter (\<lambda>e. fst e \<in> set rs) ls) = length rs"
    using r by (metis distinct_card length_map)
  moreover have "length (filter (\<lambda>e. fst e \<in> set rs) ls)
      + length (filter (\<lambda>e. \<not> fst e \<in> set rs) ls) = length ls"
    by (rule sum_length_filter_compl)
  ultimately show ?thesis by simp
qed

lemma cleanup_unfold:
  assumes "MAX_LASTSENT_ENTRIES cfg < length (lastSent w)"
  shows "cleanupLastSent cfg w =
    w\<lparr>lastSent := filter (\<lambda>e. fst e \<notin> fst ` set (take (length (lastSent w) - MAX_LASTSENT_ENTRIES cfg)
         (sort_key (\<lambda>a. - snd a) (map (\<lambda>k. (k, ageOf (now_sec w) (lastSent w) k)) (map fst (lastSent w))))))
       (lastSent w)\<rparr>"
  using assms by (simp add: cleanupLastSent_def Let_def fold_delete_filter)

text \<open>
  Claim C6. A store with at most \<open>MAX_LASTSENT_ENTRIES\<close> entries is left alone. A larger
  one loses exactly the surplus: the entries that stay are those of the old store, in
  their order, \<open>MAX_LASTSENT_ENTRIES\<close> of them, and every entry that stays is at most as old
  as every entry that goes. Nothing else changes.
\<close>

theorem cleanup_pass:
  assumes d: "distinct (map fst (lastSent w))"
  shows "(length (lastSent w) \<le> MAX_LASTSENT_ENTRIES cfg \<longrightarrow> cleanupLastSent cfg w = w)
    \<and> (MAX_LASTSENT_ENTRIES cfg < length (lastSent w) \<longrightarrow>
         length (lastSent (cleanupLastSent cfg w)) = MAX_LASTSENT_ENTRIES cfg
       \<and> lastSent (cleanupLastSent cfg w)
           = filter (\<lambda>e. e \<in> set (lastSent (cleanupLastSent cfg w))) (lastSent w)
       \<and> card (set (lastSent w) - set (lastSent (cleanupLastSent cfg w)))
           = length (lastSent w) - MAX_LASTSENT_ENTRIES cfg
       \<and> (\<forall>kept \<in> set (lastSent (cleanupLastSent cfg w)).
            \<forall>gone \<in> set (lastSent w) - set (lastSent (cleanupLastSent cfg w)).
              now_sec w - snd kept \<le> now_sec w - snd gone)
       \<and> cleanupLastSent cfg w = w\<lparr>lastSent := lastSent (cleanupLastSent cfg w)\<rparr>)"
proof (intro conjI impI)
  assume "length (lastSent w) \<le> MAX_LASTSENT_ENTRIES cfg"
  then show "cleanupLastSent cfg w = w" by (simp add: cleanupLastSent_def)
next
  assume big: "MAX_LASTSENT_ENTRIES cfg < length (lastSent w)"
  define ls where "ls = lastSent w"
  define now where "now = now_sec w"
  define t where "t = length ls - MAX_LASTSENT_ENTRIES cfg"
  define ents where "ents = map (\<lambda>k. (k, ageOf now ls k)) (map fst ls)"
  define srt where "srt = sort_key (\<lambda>a. - snd a) ents"
  define rs where "rs = map fst (take t srt)"
  define ls' where "ls' = filter (\<lambda>e. fst e \<notin> set rs) ls"
  have res: "cleanupLastSent cfg w = w\<lparr>lastSent := ls'\<rparr>"
    using cleanup_unfold [OF big]
    by (simp add: ls'_def rs_def srt_def ents_def t_def now_def ls_def)
  then have ls'_eq: "lastSent (cleanupLastSent cfg w) = ls'" by simp
  have dl: "distinct (map fst ls)" using d by (simp add: ls_def)
  have ents_fst: "map fst ents = map fst ls" by (simp add: ents_def comp_def)
  have ents_eq: "ents = map (\<lambda>e. (fst e, now - snd e)) ls"
    unfolding ents_def using ageOf_entry [OF dl, of _ _ now] by (simp add: comp_def) 
  have d_ents: "distinct (map fst ents)" using dl by (simp add: ents_fst)
  then have "distinct ents \<and> inj_on fst (set ents)" by (simp add: distinct_map)
  then have d_srt: "distinct (map fst srt)" by (simp add: distinct_map srt_def)
  have set_srt: "set srt = set ents" by (simp add: srt_def)
  have len_srt: "length srt = length ls" by (simp add: srt_def ents_def)
  have d_rs: "distinct rs"
    unfolding rs_def using d_srt by (simp add: take_map [symmetric] distinct_take)
  have rs_sub: "set rs \<subseteq> fst ` set ls"
  proof -
    have "set rs \<subseteq> fst ` set srt" unfolding rs_def by (auto dest: in_set_takeD)
    also have "\<dots> = fst ` set ls" using set_srt ents_fst by (metis set_map)
    finally show ?thesis .
  qed
  have len_rs: "length rs = t" by (simp add: rs_def len_srt t_def)
  have len': "length ls' = MAX_LASTSENT_ENTRIES cfg"
    unfolding ls'_def using removed_count [OF dl d_rs rs_sub] big
    by (simp add: len_rs t_def ls_def)
  have dls: "distinct ls" using dl by (simp add: distinct_map)
  have sub: "set ls' \<subseteq> set ls" by (auto simp: ls'_def)
  have flt: "ls' = filter (\<lambda>e. e \<in> set ls') ls"
    unfolding ls'_def by (rule filter_cong) auto
  have "card (set ls - set ls') = card (set ls) - card (set ls')"
    using sub by (simp add: card_Diff_subset)
  also have "\<dots> = length ls - length ls'"
  proof -
    have "distinct ls'" using dls by (simp add: ls'_def)
    with dls show ?thesis by (simp add: distinct_card)
  qed
  finally have crd: "card (set ls - set ls') = length ls - MAX_LASTSENT_ENTRIES cfg"
    by (simp add: len')
  have srt_sorted: "sorted (map (\<lambda>a. - snd a) (take t srt @ drop t srt))"
    by (simp add: srt_def)
  have ages: "now - snd kept \<le> now - snd gone"
    if k: "kept \<in> set ls'" and g: "gone \<in> set ls - set ls'" for kept gone
  proof -
    from k have k1: "kept \<in> set ls" and k2: "fst kept \<notin> set rs" by (auto simp: ls'_def)
    from g have g1: "gone \<in> set ls" and g2: "fst gone \<in> set rs" by (auto simp: ls'_def)
    have "(fst kept, now - snd kept) \<in> set srt"
      using k1 by (auto simp: set_srt ents_eq)
    then have "(fst kept, now - snd kept) \<in> set (take t srt) \<union> set (drop t srt)"
      by (metis append_take_drop_id set_append)
    moreover have "(fst kept, now - snd kept) \<notin> set (take t srt)"
    proof
      assume "(fst kept, now - snd kept) \<in> set (take t srt)"
      then have "fst (fst kept, now - snd kept) \<in> fst ` set (take t srt)" by (rule imageI)
      with k2 show False by (simp add: rs_def)
    qed
    ultimately have kd: "(fst kept, now - snd kept) \<in> set (drop t srt)" by blast
    from g2 obtain a where a: "a \<in> set (take t srt)" "fst a = fst gone"
      by (auto simp: rs_def)
    then have "a \<in> set ents" using set_srt by (auto dest: in_set_takeD)
    moreover have "(fst gone, now - snd gone) \<in> set ents" using g1 by (auto simp: ents_eq)
    ultimately have "a = (fst gone, now - snd gone)"
      using d_ents a(2) by (metis eq_key_imp_eq_value prod.collapse fst_conv)
    with a have gt: "(fst gone, now - snd gone) \<in> set (take t srt)" by simp
    from srt_sorted have "\<forall>x \<in> set (map (\<lambda>a. - snd a) (take t srt)).
        \<forall>y \<in> set (map (\<lambda>a. - snd a) (drop t srt)). x \<le> y"
      by (simp only: map_append sorted_append) blast
    with gt kd have "- (now - snd gone) \<le> - (now - snd kept)" by force
    then show ?thesis by simp
  qed
  show "length (lastSent (cleanupLastSent cfg w)) = MAX_LASTSENT_ENTRIES cfg"
    by (simp add: ls'_eq len')
  show "lastSent (cleanupLastSent cfg w)
      = filter (\<lambda>e. e \<in> set (lastSent (cleanupLastSent cfg w))) (lastSent w)"
    using flt by (simp add: ls'_eq ls_def)
  show "card (set (lastSent w) - set (lastSent (cleanupLastSent cfg w)))
      = length (lastSent w) - MAX_LASTSENT_ENTRIES cfg"
    using crd by (simp add: ls'_eq ls_def)
  show "\<forall>kept \<in> set (lastSent (cleanupLastSent cfg w)).
      \<forall>gone \<in> set (lastSent w) - set (lastSent (cleanupLastSent cfg w)).
        now_sec w - snd kept \<le> now_sec w - snd gone"
    using ages by (simp add: ls'_eq ls_def now_def)
  show "cleanupLastSent cfg w = w\<lparr>lastSent := lastSent (cleanupLastSent cfg w)\<rparr>"
    using res by simp
qed

theorem cleanup_pass_witness:
  "distinct (map fst (lastSent three_devices))
   \<and> lastSent (cleanupLastSent small_config three_devices) = [(''AA:00'', 90), (''CC:00'', 95)]
   \<and> length (lastSent (cleanupLastSent small_config three_devices)) = 2
   \<and> card (set (lastSent three_devices) - set (lastSent (cleanupLastSent small_config three_devices))) = 1
   \<and> cleanupLastSent default_config three_devices = three_devices"
proof -
  have d: "distinct (map fst (lastSent three_devices))"
    by (simp add: three_devices_def)
  have l: "length (lastSent three_devices) = 3"
    "MAX_LASTSENT_ENTRIES small_config = 2" "MAX_LASTSENT_ENTRIES default_config = 50"
    by (simp_all add: three_devices_def small_config_def default_config_def)
  have e: "lastSent (cleanupLastSent small_config three_devices) = [(''AA:00'', 90), (''CC:00'', 95)]"
    by (simp add: cleanupLastSent_def three_devices_def small_config_def default_config_def
        init_world_def now_sec_def ageOf_def AList.delete_eq Let_def)
  have big: "MAX_LASTSENT_ENTRIES small_config < length (lastSent three_devices)"
    and small: "length (lastSent three_devices) \<le> MAX_LASTSENT_ENTRIES default_config"
    by (simp_all add: l)
  from cleanup_pass [OF d, of small_config] big
  have "length (lastSent (cleanupLastSent small_config three_devices))
      = MAX_LASTSENT_ENTRIES small_config"
    and "card (set (lastSent three_devices) - set (lastSent (cleanupLastSent small_config three_devices)))
      = length (lastSent three_devices) - MAX_LASTSENT_ENTRIES small_config"
    by blast+
  then have "length (lastSent (cleanupLastSent small_config three_devices)) = 2"
    and "card (set (lastSent three_devices) - set (lastSent (cleanupLastSent small_config three_devices))) = 1"
    by (simp_all add: l)
  moreover from cleanup_pass [OF d, of default_config] small
  have "cleanupLastSent default_config three_devices = three_devices" by blast
  ultimately show ?thesis using d e by blast
qed

section \<open>The rate limit\<close>

lemma send_lastSent [simp]: "lastSent (send m s d w) = lastSent w"
  by (simp add: send_def Let_def Timer_set_def HTTP_POST_def)

lemma hex_empty_iff: "(hex p = []) = (p = [])"
  by (cases p) (simp_all add: hex_spec spec_payload_hex_def spec_hex_byte_def)

lemma update_fresh: "k \<notin> fst ` set al \<Longrightarrow> AList.update k v al = al @ [(k, v)]"
  by (induction al) auto

lemma onBle_unfold:
  assumes "addr r = Some a" "a \<noteq> []" "advData r = Some p" "p \<noteq> []" "hasMfg (hex p) (MFG cfg)"
  shows "onBle cfg SCAN_RESULT (Some r) w =
    (if now_sec w - lastSentOr0 (lastSent w) (deviceKey a) < RATE_LIMIT_SEC cfg then w
     else send (deviceKey a) (rssi r) (hex p)
            (w\<lparr>lastSent := AList.update (deviceKey a) (now_sec w) (lastSent w)\<rparr>))"
  using assms by (simp add: onBle_def deviceKey_def Let_def hex_empty_iff)

lemma onBle_cases:
  assumes "addr r = Some a"
  shows "onBle cfg ev (Some r) w = w \<or>
    (now_sec w - lastSentOr0 (lastSent w) (deviceKey a) \<ge> RATE_LIMIT_SEC cfg \<and>
     (\<exists>d. onBle cfg ev (Some r) w =
        send (deviceKey a) (rssi r) d
          (w\<lparr>lastSent := AList.update (deviceKey a) (now_sec w) (lastSent w)\<rparr>)))"
  using assms by (auto simp: onBle_def deviceKey_def Let_def split: option.splits)

text \<open>
  Claim C5, as amended. While the store holds the time \<open>T\<close> for a device, every
  advertisement of that device before \<open>T + RATE_LIMIT_SEC\<close> is dropped. A device without an
  entry is treated as recorded at time 0: its advertisement is dropped before
  \<open>RATE_LIMIT_SEC\<close> and, if it passes the filter, recorded from then on. Whenever the handler
  does anything at all, it has recorded the current time for the device.
\<close>

theorem rate_limit:
  assumes "addr r = Some a"
  shows "(map_of (lastSent w) (deviceKey a) = Some T \<and> now_sec w < T + RATE_LIMIT_SEC cfg \<longrightarrow>
            onBle cfg ev (Some r) w = w)
    \<and> (map_of (lastSent w) (deviceKey a) = None \<and> now_sec w < RATE_LIMIT_SEC cfg \<longrightarrow>
            onBle cfg ev (Some r) w = w)
    \<and> (map_of (lastSent w) (deviceKey a) = None \<and> RATE_LIMIT_SEC cfg \<le> now_sec w \<and>
         a \<noteq> [] \<and> advData r = Some p \<and> p \<noteq> [] \<and> hasMfg (hex p) (MFG cfg) \<longrightarrow>
            lastSent (onBle cfg SCAN_RESULT (Some r) w) = lastSent w @ [(deviceKey a, now_sec w)])
    \<and> (onBle cfg ev (Some r) w \<noteq> w \<longrightarrow>
            map_of (lastSent (onBle cfg ev (Some r) w)) (deviceKey a) = Some (now_sec w))"
proof (intro conjI impI)
  assume "map_of (lastSent w) (deviceKey a) = Some T \<and> now_sec w < T + RATE_LIMIT_SEC cfg"
  then show "onBle cfg ev (Some r) w = w"
    using onBle_cases [OF assms, of cfg ev w] by (auto simp: lastSentOr0_def)
next
  assume "map_of (lastSent w) (deviceKey a) = None \<and> now_sec w < RATE_LIMIT_SEC cfg"
  then show "onBle cfg ev (Some r) w = w"
    using onBle_cases [OF assms, of cfg ev w] by (auto simp: lastSentOr0_def)
next
  assume h: "map_of (lastSent w) (deviceKey a) = None \<and> RATE_LIMIT_SEC cfg \<le> now_sec w \<and>
         a \<noteq> [] \<and> advData r = Some p \<and> p \<noteq> [] \<and> hasMfg (hex p) (MFG cfg)"
  then have "deviceKey a \<notin> fst ` set (lastSent w)" by (simp add: map_of_eq_None_iff)
  then have "AList.update (deviceKey a) (now_sec w) (lastSent w)
      = lastSent w @ [(deviceKey a, now_sec w)]"
    by (rule update_fresh)
  with h show "lastSent (onBle cfg SCAN_RESULT (Some r) w) = lastSent w @ [(deviceKey a, now_sec w)]"
    using onBle_unfold [OF assms, of p cfg w] by (simp add: lastSentOr0_def)
next
  assume "onBle cfg ev (Some r) w \<noteq> w"
  then show "map_of (lastSent (onBle cfg ev (Some r) w)) (deviceKey a) = Some (now_sec w)"
    using onBle_cases [OF assms, of cfg ev w] by (auto simp: AList.update_conv')
qed

lemma victron_hex: "hex victron_payload = ''020106FF9904''"
  by code_simp

lemma victron_has_list: "hasMfg ''020106FF9904'' [1177, 89, 103, 737, 3923]"
  by code_simp

lemma victron_has: "hasMfg ''020106FF9904'' (MFG default_config)"
  by (simp add: default_config_def victron_has_list)

lemma victron_key: "deviceKey ''aabbccddeeff'' = ''AA:BB:CC:DD:EE:FF''"
  by code_simp

lemma victron_fields:
  "addr victron_adv = Some ''aabbccddeeff''" "advData victron_adv = Some victron_payload"
  "rssi victron_adv = - 67" "victron_payload \<noteq> []"
  by (simp_all add: victron_adv_def victron_payload_def)

lemma onBle_victron:
  assumes "MFG cfg = MFG default_config"
  shows "onBle cfg SCAN_RESULT (Some victron_adv) w =
    (if now_sec w - lastSentOr0 (lastSent w) ''AA:BB:CC:DD:EE:FF'' < RATE_LIMIT_SEC cfg then w
     else send ''AA:BB:CC:DD:EE:FF'' (- 67) ''020106FF9904''
            (w\<lparr>lastSent := AList.update ''AA:BB:CC:DD:EE:FF'' (now_sec w) (lastSent w)\<rparr>))"
  using onBle_unfold [of victron_adv "''aabbccddeeff''" victron_payload cfg w] assms
  by (simp add: victron_fields victron_hex victron_has victron_key)

theorem rate_limit_witness:
  "onBle default_config SCAN_RESULT (Some victron_adv)
      (init_world\<lparr>clock := 103000, lastSent := [(''AA:BB:CC:DD:EE:FF'', 100)]\<rparr>)
     = init_world\<lparr>clock := 103000, lastSent := [(''AA:BB:CC:DD:EE:FF'', 100)]\<rparr>
   \<and> onBle default_config SCAN_RESULT (Some victron_adv) (init_world\<lparr>clock := 3000\<rparr>)
     = init_world\<lparr>clock := 3000\<rparr>
   \<and> lastSent (onBle default_config SCAN_RESULT (Some victron_adv) (init_world\<lparr>clock := 100000\<rparr>))
     = [(''AA:BB:CC:DD:EE:FF'', 100)]
   \<and> map_of (lastSent (onBle default_config SCAN_RESULT (Some victron_adv)
          (init_world\<lparr>clock := 105000, lastSent := [(''AA:BB:CC:DD:EE:FF'', 100)]\<rparr>)))
        ''AA:BB:CC:DD:EE:FF'' = Some 105"
proof -
  have c: "RATE_LIMIT_SEC default_config = 5" by (simp add: default_config_def)
  have moved: "onBle default_config SCAN_RESULT (Some victron_adv)
          (init_world\<lparr>clock := 105000, lastSent := [(''AA:BB:CC:DD:EE:FF'', 100)]\<rparr>)
       \<noteq> init_world\<lparr>clock := 105000, lastSent := [(''AA:BB:CC:DD:EE:FF'', 100)]\<rparr>"
    by (simp add: onBle_victron now_sec_def c lastSentOr0_def send_def Let_def Timer_set_def
        HTTP_POST_def init_world_def)
  from rate_limit [OF victron_fields(1), of
      "init_world\<lparr>clock := 103000, lastSent := [(''AA:BB:CC:DD:EE:FF'', 100)]\<rparr>" 100 default_config
      SCAN_RESULT]
  have a: "onBle default_config SCAN_RESULT (Some victron_adv)
      (init_world\<lparr>clock := 103000, lastSent := [(''AA:BB:CC:DD:EE:FF'', 100)]\<rparr>)
     = init_world\<lparr>clock := 103000, lastSent := [(''AA:BB:CC:DD:EE:FF'', 100)]\<rparr>"
    by (simp add: victron_key now_sec_def init_world_def c)
  from rate_limit [OF victron_fields(1), of "init_world\<lparr>clock := 3000\<rparr>" _ default_config SCAN_RESULT]
  have b: "onBle default_config SCAN_RESULT (Some victron_adv) (init_world\<lparr>clock := 3000\<rparr>)
     = init_world\<lparr>clock := 3000\<rparr>"
    by (simp add: victron_key now_sec_def init_world_def c)
  from rate_limit [OF victron_fields(1), of "init_world\<lparr>clock := 100000\<rparr>" _ default_config
      _ victron_payload]
  have d: "lastSent (onBle default_config SCAN_RESULT (Some victron_adv) (init_world\<lparr>clock := 100000\<rparr>))
     = [(''AA:BB:CC:DD:EE:FF'', 100)]"
    by (simp add: victron_key now_sec_def init_world_def c victron_fields victron_hex victron_has)
  from rate_limit [OF victron_fields(1), of
      "init_world\<lparr>clock := 105000, lastSent := [(''AA:BB:CC:DD:EE:FF'', 100)]\<rparr>" _ default_config
      SCAN_RESULT] moved
  have e: "map_of (lastSent (onBle default_config SCAN_RESULT (Some victron_adv)
          (init_world\<lparr>clock := 105000, lastSent := [(''AA:BB:CC:DD:EE:FF'', 100)]\<rparr>)))
        ''AA:BB:CC:DD:EE:FF'' = Some 105"
    by (simp add: victron_key now_sec_def init_world_def)
  from a b d e show ?thesis by blast
qed


section \<open>What each handler changes\<close>

lemma send_effect:
  "send m s d w = w \<and> (busy w \<or> now_sec w < backoffUntil w) \<or>
   \<not> busy w \<and> backoffUntil w \<le> now_sec w \<and>
   send m s d w =
     w\<lparr>currentMac := m, busy := True,
       timers := timers w @ [(nextTimer w, clock w + 10000)],
       nextTimer := nextTimer w + 1,
       busyTimer := Some (nextTimer w),
       calls := calls w @
         [\<lparr>call_id = nextCall w, watchdog = Some (nextTimer w), timed_out = False,
           tag_mac = m, tag_rssi = s, tag_data = d, tag_ts = now_sec w\<rparr>],
       nextCall := nextCall w + 1\<rparr>"
  by (simp add: send_def Let_def Timer_set_def HTTP_POST_def)

lemma onBle_effect:
  "onBle cfg ev res w = w \<or>
   (\<exists>ls. (busy w \<or> now_sec w < backoffUntil w) \<and> onBle cfg ev res w = w\<lparr>lastSent := ls\<rparr>) \<or>
   (\<exists>ls m s d. \<not> busy w \<and> backoffUntil w \<le> now_sec w \<and>
      onBle cfg ev res w =
        w\<lparr>lastSent := ls, currentMac := m, busy := True,
          timers := timers w @ [(nextTimer w, clock w + 10000)],
          nextTimer := nextTimer w + 1,
          busyTimer := Some (nextTimer w),
          calls := calls w @
            [\<lparr>call_id = nextCall w, watchdog = Some (nextTimer w), timed_out = False,
              tag_mac = m, tag_rssi = s, tag_data = d, tag_ts = now_sec w\<rparr>],
          nextCall := nextCall w + 1\<rparr>)"
proof (cases res)
  case None
  then show ?thesis by (simp add: onBle_def)
next
  case (Some r)
  show ?thesis
  proof (cases "addr r")
    case None
    with Some show ?thesis by (simp add: onBle_def)
  next
    case a: (Some a)
    let ?w = "w\<lparr>lastSent := AList.update (deviceKey a) (now_sec w) (lastSent w)\<rparr>"
    from onBle_cases [OF a, of cfg ev w] Some
    consider "onBle cfg ev res w = w" | d where "onBle cfg ev res w = send (deviceKey a) (rssi r) d ?w"
      by blast
    then show ?thesis
    proof cases
      case 1
      then show ?thesis by simp
    next
      case 2
      from send_effect [of "deviceKey a" "rssi r" d ?w] 2 show ?thesis
        by simp blast
    qed
  qed
qed

lemma cleanup_effect: "\<exists>ls. cleanupLastSent cfg w = w\<lparr>lastSent := ls\<rparr>"
proof (cases "length (lastSent w) \<le> MAX_LASTSENT_ENTRIES cfg")
  case True
  then have "cleanupLastSent cfg w = w\<lparr>lastSent := lastSent w\<rparr>"
    by (simp add: cleanupLastSent_def)
  then show ?thesis by blast
next
  case False
  then show ?thesis using cleanup_unfold [of cfg w] by auto
qed

lemma httpCallback_effect:
  "httpCallback r e w =
     (let n = consecutiveErrors w + 1;
          w' = w\<lparr>busy := False, busyTimer := None,
                 timers := (case busyTimer w of None \<Rightarrow> timers w
                            | Some h \<Rightarrow> filter (\<lambda>t. fst t \<noteq> h) (timers w))\<rparr>
      in if http_failed r e
         then w'\<lparr>consecutiveErrors := n,
                 backoffUntil := (if n \<le> 3 then backoffUntil w else now_sec w + min 60 (n * 5))\<rparr>
         else w'\<lparr>consecutiveErrors := 0, backoffUntil := 0\<rparr>)"
  by (cases "busyTimer w"; cases r)
    (auto simp: httpCallback_def http_failed_def Let_def Timer_clear_def applyBackoff_def now_sec_def)

lemma resetBusy_effect:
  "resetBusy w =
     (let n = consecutiveErrors w + 1
      in w\<lparr>busy := False, busyTimer := None, consecutiveErrors := n,
           backoffUntil := (if n \<le> 3 then backoffUntil w else now_sec w + min 60 (n * 5))\<rparr>)"
  by (auto simp: resetBusy_def Let_def applyBackoff_def now_sec_def)

section \<open>Runs and invariants\<close>

lemma step_Adv: "step cfg (Adv ev res) w = Some (onBle cfg ev res w)"
  by (simp add: step_def)

lemma step_Cleanup: "step cfg Cleanup w = Some (cleanupLastSent cfg w)"
  by (simp add: step_def)

lemma step_Tick: "step cfg (Tick ms) w = Some (w\<lparr>clock := clock w + int ms\<rparr>)"
  by (simp add: step_def)

lemma step_Fire:
  "step cfg (Fire h) w =
     (case map_of (timers w) h of
        None \<Rightarrow> None
      | Some due \<Rightarrow> if clock w < due then None else Some (resetBusy (fire h w)))"
  by (simp add: step_def)

lemma step_Complete:
  "step cfg (Complete i r ec) w =
     (if i \<in> set (map call_id (calls w))
      then Some (httpCallback r ec (w\<lparr>calls := filter (\<lambda>c. call_id c \<noteq> i) (calls w)\<rparr>))
      else None)"
  by (simp add: step_def)

lemma run_invariant:
  assumes "run cfg es w = Some w'" and "P w"
    and "\<And>e u u'. P u \<Longrightarrow> step cfg e u = Some u' \<Longrightarrow> P u'"
  shows "P w'"
  using assms(1,2)
proof (induction es arbitrary: w)
  case Nil
  then show ?case by simp
next
  case (Cons e es)
  then obtain u where u: "step cfg e w = Some u" "run cfg es u = Some w'"
    by (auto split: option.splits)
  from assms(3) [OF Cons.prems(2) u(1)] have "P u" .
  with Cons.IH u(2) show ?case by blast
qed

lemma run_invariant_no_stale:
  assumes "run cfg es w = Some w'" and "no_stale cfg es w" and "P w"
    and "\<And>e u u'. P u \<Longrightarrow> \<not> stale_completion e u \<Longrightarrow> step cfg e u = Some u' \<Longrightarrow> P u'"
  shows "P w'"
  using assms(1,2,3)
proof (induction es arbitrary: w)
  case Nil
  then show ?case by simp
next
  case (Cons e es)
  then obtain u where u: "step cfg e w = Some u" "run cfg es u = Some w'"
    by (auto split: option.splits)
  from Cons.prems(2) u(1) have ns: "\<not> stale_completion e w" "no_stale cfg es u" by simp_all
  from assms(4) [OF Cons.prems(3) ns(1) u(1)] have "P u" .
  with Cons.IH u(2) ns(2) show ?case by blast
qed

lemma filter_only_key: "map fst ts = [h] \<Longrightarrow> filter (\<lambda>t. fst t \<noteq> h) ts = []"
  by (cases ts) auto

lemma slot_inv_init: "slot_inv init_world"
  by (simp add: slot_inv_def init_world_def)

lemma slot_inv_step:
  assumes inv: "slot_inv w" and st: "step cfg e w = Some w'"
  shows "slot_inv w'"
proof (cases e)
  case (Adv ev res)
  with st have w': "w' = onBle cfg ev res w" by (simp add: step_Adv)
  from onBle_effect [of cfg ev res w] inv show ?thesis
    unfolding w' by (auto simp: slot_inv_def)
next
  case (Fire h)
  with st obtain due where due: "map_of (timers w) h = Some due" and w': "w' = resetBusy (fire h w)"
    by (auto simp: step_Fire split: option.splits if_splits)
  from due have "h \<in> fst ` set (timers w)" by (metis map_of_eq_None_iff option.distinct(1))
  then have "h \<in> set (map fst (timers w))" by simp
  with inv have bt: "busyTimer w = Some h" "map fst (timers w) = [h]"
    by (auto simp: slot_inv_def split: option.splits)
  then have "filter (\<lambda>t. fst t \<noteq> h) (timers w) = []"
    by (simp add: filter_only_key)
  then show ?thesis
    unfolding w' by (simp add: slot_inv_def resetBusy_effect fire_def Let_def)
next
  case (Complete i r ec)
  with st have w': "w' = httpCallback r ec (w\<lparr>calls := filter (\<lambda>c. call_id c \<noteq> i) (calls w)\<rparr>)"
    by (auto simp: step_Complete split: if_splits)
  show ?thesis
  proof (cases "busyTimer w")
    case None
    with inv show ?thesis
      unfolding w' by (simp add: slot_inv_def httpCallback_effect Let_def)
  next
    case (Some h)
    with inv have "map fst (timers w) = [h]" by (simp add: slot_inv_def)
    then have "filter (\<lambda>t. fst t \<noteq> h) (timers w) = []" by (rule filter_only_key)
    with Some show ?thesis
      unfolding w' by (simp add: slot_inv_def httpCallback_effect Let_def)
  qed
next
  case Cleanup
  with st have "w' = cleanupLastSent cfg w" by (simp add: step_Cleanup)
  with cleanup_effect [of cfg w] inv show ?thesis by (auto simp: slot_inv_def)
next
  case (Tick ms)
  with st inv show ?thesis by (auto simp: step_Tick slot_inv_def)
qed

lemma slot_inv_run: "run cfg es init_world = Some w \<Longrightarrow> slot_inv w"
  by (rule run_invariant [where P = slot_inv, OF _ slot_inv_init slot_inv_step])

lemma flight_idle: "flight_inv w \<Longrightarrow> \<not> busy w \<Longrightarrow> in_flight w = []"
  by (auto simp: flight_inv_def split: list.splits)

lemma flight_busy:
  "flight_inv w \<Longrightarrow> busy w \<Longrightarrow> \<exists>c. in_flight w = [c] \<and> watchdog c = busyTimer w"
  by (auto simp: flight_inv_def split: list.splits)

lemma flight_inv_init: "flight_inv init_world"
  by (simp add: flight_inv_def in_flight_def init_world_def)

lemma flight_inv_step:
  assumes sl: "slot_inv w" and fl: "flight_inv w" and ns: "\<not> stale_completion e w"
    and st: "step cfg e w = Some w'"
  shows "flight_inv w'"
proof (cases e)
  case (Adv ev res)
  with st have w': "w' = onBle cfg ev res w" by (simp add: step_Adv)
  from onBle_effect [of cfg ev res w]
  consider (same) "onBle cfg ev res w = w"
    | (recorded) ls where "onBle cfg ev res w = w\<lparr>lastSent := ls\<rparr>"
    | (accepted) ls m s d where "\<not> busy w"
        "onBle cfg ev res w =
          w\<lparr>lastSent := ls, currentMac := m, busy := True,
            timers := timers w @ [(nextTimer w, clock w + 10000)],
            nextTimer := nextTimer w + 1,
            busyTimer := Some (nextTimer w),
            calls := calls w @
              [\<lparr>call_id = nextCall w, watchdog = Some (nextTimer w), timed_out = False,
                tag_mac = m, tag_rssi = s, tag_data = d, tag_ts = now_sec w\<rparr>],
            nextCall := nextCall w + 1\<rparr>"
    by blast
  then show ?thesis
  proof cases
    case same
    with fl show ?thesis by (simp add: w')
  next
    case recorded
    with fl show ?thesis by (simp add: w' flight_inv_def in_flight_def split: list.splits)
  next
    case accepted
    from flight_idle [OF fl accepted(1)] have "filter (\<lambda>c. \<not> timed_out c) (calls w) = []"
      by (simp add: in_flight_def)
    then show ?thesis by (simp add: w' accepted(2) flight_inv_def in_flight_def)
  qed
next
  case (Fire h)
  with st obtain due where due: "map_of (timers w) h = Some due" and w': "w' = resetBusy (fire h w)"
    by (auto simp: step_Fire split: option.splits if_splits)
  from due have "h \<in> fst ` set (timers w)" by (metis map_of_eq_None_iff option.distinct(1))
  then have "h \<in> set (map fst (timers w))" by simp
  with sl have bt: "busyTimer w = Some h" "busy w"
    by (auto simp: slot_inv_def split: option.splits)
  from flight_busy [OF fl bt(2)] bt(1) obtain c where c: "in_flight w = [c]" "watchdog c = Some h"
    by auto
  have "watchdog x = Some h" if "x \<in> set (calls w)" "\<not> timed_out x" for x
  proof -
    from that have "x \<in> set (in_flight w)" by (simp add: in_flight_def)
    with c show ?thesis by simp
  qed
  then have "filter (\<lambda>c. \<not> timed_out c)
      (map (\<lambda>c. if watchdog c = Some h then c\<lparr>timed_out := True\<rparr> else c) (calls w)) = []"
    by (auto simp: filter_empty_conv)
  then show ?thesis
    unfolding w' by (simp add: flight_inv_def in_flight_def resetBusy_effect fire_def Let_def)
next
  case (Complete i r ec)
  with st have i: "i \<in> set (map call_id (calls w))"
    and w': "w' = httpCallback r ec (w\<lparr>calls := filter (\<lambda>c. call_id c \<noteq> i) (calls w)\<rparr>)"
    by (auto simp: step_Complete split: if_splits)
  from i obtain x where x: "x \<in> set (calls w)" "call_id x = i" by auto
  from ns Complete x have "\<not> timed_out x"
    by (auto simp: stale_completion_def list_ex_iff)
  with x have xin: "x \<in> set (in_flight w)" by (simp add: in_flight_def)
  then have "busy w" using fl by (auto simp: flight_inv_def split: list.splits)
  from flight_busy [OF fl this] xin have "in_flight w = [x]" by auto
  then have "filter (\<lambda>c. call_id c \<noteq> i) (filter (\<lambda>c. \<not> timed_out c) (calls w)) = []"
    using x(2) by (simp add: in_flight_def)
  then have "filter (\<lambda>c. \<not> timed_out c) (filter (\<lambda>c. call_id c \<noteq> i) (calls w)) = []"
    by (simp add: conj_commute)
  then show ?thesis
    unfolding w' by (simp add: flight_inv_def in_flight_def httpCallback_effect Let_def)
next
  case Cleanup
  with st have "w' = cleanupLastSent cfg w" by (simp add: step_Cleanup)
  with cleanup_effect [of cfg w] fl show ?thesis
    by (auto simp: flight_inv_def in_flight_def split: list.splits)
next
  case (Tick ms)
  with st fl show ?thesis
    by (auto simp: step_Tick flight_inv_def in_flight_def split: list.splits)
qed

lemma both_inv_run:
  assumes "run cfg es init_world = Some w" and "no_stale cfg es init_world"
  shows "slot_inv w \<and> flight_inv w"
  using assms
proof (rule run_invariant_no_stale [where P = "\<lambda>w. slot_inv w \<and> flight_inv w"])
  show "slot_inv init_world \<and> flight_inv init_world"
    by (simp add: slot_inv_init flight_inv_init)
next
  fix e u u'
  assume "slot_inv u \<and> flight_inv u" "\<not> stale_completion e u" "step cfg e u = Some u'"
  then show "slot_inv u' \<and> flight_inv u'"
    using slot_inv_step flight_inv_step by blast
qed

lemma accept_needs_idle:
  assumes "step cfg e w = Some w'" and "length (calls w) < length (calls w')"
  shows "\<not> busy w \<and> backoffUntil w \<le> now_sec w \<and> busy w' \<and> (\<exists>ev res. e = Adv ev res)"
proof (cases e)
  case (Adv ev res)
  with assms have w': "w' = onBle cfg ev res w" by (simp add: step_Adv)
  from onBle_effect [of cfg ev res w] assms(2) Adv show ?thesis
    unfolding w' by auto
next
  case (Fire h)
  with assms show ?thesis
    by (auto simp: step_Fire resetBusy_effect fire_def Let_def split: option.splits if_splits)
next
  case (Complete i r ec)
  with assms(1) have "w' = httpCallback r ec (w\<lparr>calls := filter (\<lambda>c. call_id c \<noteq> i) (calls w)\<rparr>)"
    by (auto simp: step_Complete split: if_splits)
  then have "length (calls w') \<le> length (calls w)"
    by (simp add: httpCallback_effect Let_def)
  with assms(2) show ?thesis by simp
next
  case Cleanup
  with assms(1) have "w' = cleanupLastSent cfg w" by (simp add: step_Cleanup)
  with cleanup_effect [of cfg w] assms(2) show ?thesis by auto
next
  case (Tick ms)
  with assms show ?thesis by (auto simp: step_Tick)
qed

lemma quiet_keeps_busy:
  assumes "step cfg e w = Some w'" and "quiet e" and "busy w"
  shows "busy w' \<and> busyTimer w' = busyTimer w \<and> timers w' = timers w \<and> calls w' = calls w
    \<and> consecutiveErrors w' = consecutiveErrors w \<and> backoffUntil w' = backoffUntil w
    \<and> nextTimer w' = nextTimer w \<and> clock w \<le> clock w'"
proof (cases e)
  case (Adv ev res)
  with assms have w': "w' = onBle cfg ev res w" by (simp add: step_Adv)
  from onBle_effect [of cfg ev res w] assms(3) show ?thesis
    unfolding w' by auto
next
  case (Fire h)
  with assms(2) show ?thesis by (simp add: quiet_def)
next
  case (Complete i r ec)
  with assms(2) show ?thesis by (simp add: quiet_def)
next
  case Cleanup
  with assms(1) have "w' = cleanupLastSent cfg w" by (simp add: step_Cleanup)
  with cleanup_effect [of cfg w] assms(3) show ?thesis by auto
next
  case (Tick ms)
  with assms show ?thesis by (auto simp: step_Tick)
qed

section \<open>Evaluating runs\<close>

lemma default_rate: "RATE_LIMIT_SEC default_config = 5"
  by (simp add: default_config_def)

lemmas onBle_victron_default = onBle_victron [of default_config, OF refl]

lemmas run_eval =
  victron_event_def step_def onBle_victron_default default_rate send_def Timer_set_def
  Timer_clear_def HTTP_POST_def httpCallback_def resetBusy_def applyBackoff_def fire_def
  now_sec_def lastSentOr0_def init_world_def Let_def http_ok_def http_500_def

lemma plain_run_result:
  "run default_config plain_run init_world =
     Some \<lparr>busy = True, lastSent = [(''AA:BB:CC:DD:EE:FF'', 105)],
       currentMac = ''AA:BB:CC:DD:EE:FF'', busyTimer = Some 1, consecutiveErrors = 0,
       backoffUntil = 0, clock = 105000, timers = [(1, 115000)], nextTimer = 2,
       calls = [\<lparr>call_id = 1, watchdog = Some 1, timed_out = False,
                 tag_mac = ''AA:BB:CC:DD:EE:FF'', tag_rssi = - 67,
                 tag_data = ''020106FF9904'', tag_ts = 105\<rparr>],
       nextCall = 2\<rparr>"
  by (simp add: plain_run_def run_eval)

lemma plain_run_no_stale: "no_stale default_config plain_run init_world"
  by (simp add: plain_run_def stale_completion_def run_eval)

text \<open>
  Claim C1, as amended. In every reachable state at most one watchdog is armed, and one is
  armed exactly while \<open>busy\<close> is set. A send is accepted only while \<open>busy\<close> is clear and no
  cooldown is active, it sets \<open>busy\<close>, and no event other than a completion or a timer
  clears \<open>busy\<close>. In every run without a stale completion at most one delivery is in
  flight, and one is in flight exactly while \<open>busy\<close> is set, so that a send is accepted
  only when every earlier one has been resolved by its completion or by its watchdog.
\<close>

theorem single_flight:
  assumes "run cfg es init_world = Some w"
  shows "slot_inv w
    \<and> (no_stale cfg es init_world \<longrightarrow>
         length (in_flight w) \<le> 1 \<and> (busy w \<longleftrightarrow> in_flight w \<noteq> []))
    \<and> (\<forall>e w'. step cfg e w = Some w' \<longrightarrow>
         (length (calls w) < length (calls w') \<longrightarrow>
            \<not> busy w \<and> backoffUntil w \<le> now_sec w \<and> busy w') \<and>
         (busy w \<and> quiet e \<longrightarrow> busy w' \<and> calls w' = calls w))"
proof (intro conjI impI allI)
  show "slot_inv w" using assms by (rule slot_inv_run)
next
  assume "no_stale cfg es init_world"
  with assms have "flight_inv w" using both_inv_run by blast
  then show "length (in_flight w) \<le> 1" by (auto simp: flight_inv_def split: list.splits)
next
  assume "no_stale cfg es init_world"
  with assms have "flight_inv w" using both_inv_run by blast
  then show "busy w = (in_flight w \<noteq> [])" by (auto simp: flight_inv_def split: list.splits)
next
  fix e w' assume "step cfg e w = Some w'" "length (calls w) < length (calls w')"
  then show "\<not> busy w" "backoffUntil w \<le> now_sec w" "busy w'"
    using accept_needs_idle by blast+
next
  fix e w' assume "step cfg e w = Some w'" "busy w \<and> quiet e"
  then show "busy w'" "calls w' = calls w" using quiet_keeps_busy by blast+
qed

theorem single_flight_witness:
  "run default_config plain_run init_world \<noteq> None
   \<and> no_stale default_config plain_run init_world
   \<and> slot_inv (the (run default_config plain_run init_world))
   \<and> length (in_flight (the (run default_config plain_run init_world))) = 1
   \<and> busy (the (run default_config plain_run init_world))"
proof -
  from single_flight [OF plain_run_result] plain_run_no_stale
  have "slot_inv (the (run default_config plain_run init_world))"
    by (simp add: plain_run_result)
  then show ?thesis
    by (simp add: plain_run_result plain_run_no_stale in_flight_def)
qed

theorem late_completion_counterexample:
  "run default_config late_completion_run init_world =
     Some \<lparr>busy = True, lastSent = [(''AA:BB:CC:DD:EE:FF'', 115)],
       currentMac = ''AA:BB:CC:DD:EE:FF'', busyTimer = Some 2, consecutiveErrors = 0,
       backoffUntil = 0, clock = 115000, timers = [(2, 125000)], nextTimer = 3,
       calls = [\<lparr>call_id = 1, watchdog = Some 1, timed_out = False,
                 tag_mac = ''AA:BB:CC:DD:EE:FF'', tag_rssi = - 67,
                 tag_data = ''020106FF9904'', tag_ts = 110\<rparr>,
                \<lparr>call_id = 2, watchdog = Some 2, timed_out = False,
                 tag_mac = ''AA:BB:CC:DD:EE:FF'', tag_rssi = - 67,
                 tag_data = ''020106FF9904'', tag_ts = 115\<rparr>],
       nextCall = 3\<rparr>
   \<and> map_option (\<lambda>w. length (in_flight w)) (run default_config late_completion_run init_world)
       = Some 2"
  by (simp add: late_completion_run_def run_eval in_flight_def)

section \<open>A completion after the watchdog\<close>

lemma watchdog_run_result:
  "run default_config watchdog_run init_world =
     Some \<lparr>busy = False, lastSent = [(''AA:BB:CC:DD:EE:FF'', 100)],
       currentMac = ''AA:BB:CC:DD:EE:FF'', busyTimer = None, consecutiveErrors = 1,
       backoffUntil = 0, clock = 110000, timers = [], nextTimer = 1,
       calls = [\<lparr>call_id = 0, watchdog = Some 0, timed_out = True,
                 tag_mac = ''AA:BB:CC:DD:EE:FF'', tag_rssi = - 67,
                 tag_data = ''020106FF9904'', tag_ts = 100\<rparr>],
       nextCall = 1\<rparr>"
  by (simp add: watchdog_run_def run_eval)

lemma run_append:
  "run cfg (es @ fs) w = (case run cfg es w of None \<Rightarrow> None | Some u \<Rightarrow> run cfg fs u)"
  by (induction es arbitrary: w) (auto split: option.splits)

text \<open>
  Claim C2, as amended. A completion that runs while the slot is idle, as it is after the
  watchdog has released it and before another send is accepted, leaves \<open>busy\<close> clear and
  \<open>busyTimer\<close> empty and touches no timer, but it is classified like any other: a failure
  adds one to \<open>consecutiveErrors\<close> and applies the backoff, a success sets
  \<open>consecutiveErrors\<close> and \<open>backoffUntil\<close> to 0.
\<close>

theorem late_completion_effect:
  assumes "stale_completion (Complete i r e) w" and "\<not> busy w" and "busyTimer w = None"
  shows "step cfg (Complete i r e) w =
     Some (w\<lparr>calls := filter (\<lambda>c. call_id c \<noteq> i) (calls w),
             consecutiveErrors :=
               (if http_failed r e then consecutiveErrors w + 1 else 0),
             backoffUntil :=
               (if http_failed r e
                then (if consecutiveErrors w + 1 \<le> 3 then backoffUntil w
                      else now_sec w + min 60 ((consecutiveErrors w + 1) * 5))
                else 0)\<rparr>)"
proof -
  from assms(1) have "i \<in> set (map call_id (calls w))"
    by (auto simp: stale_completion_def list_ex_iff)
  then show ?thesis
    using assms(2,3) by (simp add: step_Complete httpCallback_effect Let_def)
qed

theorem late_completion_effect_witness:
  "map_option consecutiveErrors (run default_config watchdog_run init_world) = Some 1
   \<and> map_option (\<lambda>w. (busy w, busyTimer w, timers w, consecutiveErrors w, backoffUntil w, calls w))
        (run default_config (watchdog_run @ [Complete 0 (Some http_ok) 0]) init_world)
       = Some (False, None, [], 0, 0, [])
   \<and> map_option (\<lambda>w. (busy w, busyTimer w, timers w, consecutiveErrors w, backoffUntil w, calls w))
        (run default_config (watchdog_run @ [Complete 0 None 0]) init_world)
       = Some (False, None, [], 2, 0, [])"
proof -
  let ?w = "\<lparr>busy = False, lastSent = [(''AA:BB:CC:DD:EE:FF'', 100)],
       currentMac = ''AA:BB:CC:DD:EE:FF'', busyTimer = None, consecutiveErrors = 1,
       backoffUntil = 0, clock = 110000, timers = [], nextTimer = 1,
       calls = [\<lparr>call_id = 0, watchdog = Some 0, timed_out = True,
                 tag_mac = ''AA:BB:CC:DD:EE:FF'', tag_rssi = - 67,
                 tag_data = ''020106FF9904'', tag_ts = 100\<rparr>],
       nextCall = 1\<rparr>"
  have s: "stale_completion (Complete 0 r e) ?w" for r e
    by (simp add: stale_completion_def)
  have f: "\<not> http_failed (Some http_ok) 0" "http_failed None 0"
    by (simp_all add: http_failed_def http_ok_def)
  from late_completion_effect [OF s [of "Some http_ok" 0], of default_config]
    late_completion_effect [OF s [of None 0], of default_config] f
  show ?thesis
    by (simp add: run_append watchdog_run_result)
qed

theorem late_completion_not_ignored_counterexample:
  "map_option (\<lambda>w. (busy w, busyTimer w, consecutiveErrors w, backoffUntil w))
        (run default_config watchdog_run init_world)
       = Some (False, None, 1, 0)
   \<and> map_option (stale_completion (Complete 0 (Some http_ok) 0))
        (run default_config watchdog_run init_world) = Some True
   \<and> map_option (\<lambda>w. (busy w, busyTimer w, consecutiveErrors w, backoffUntil w))
        (run default_config (watchdog_run @ [Complete 0 (Some http_ok) 0]) init_world)
       = Some (False, None, 0, 0)
   \<and> map_option (\<lambda>w. (busy w, busyTimer w, consecutiveErrors w, backoffUntil w))
        (run default_config (watchdog_run @ [Complete 0 None (- 1)]) init_world)
       = Some (False, None, 2, 0)"
  by (simp add: run_append watchdog_run_result stale_completion_def step_Complete
      httpCallback_effect http_failed_def http_ok_def Let_def)

section \<open>The backoff variables over time\<close>

lemma now_sec_mono: "clock w \<le> clock w' \<Longrightarrow> now_sec w \<le> now_sec w'"
  by (simp add: now_sec_def zdiv_mono1)

lemma now_sec_nonneg: "0 \<le> clock w \<Longrightarrow> 0 \<le> now_sec w"
  by (simp add: now_sec_def)

lemma backoff_inv_init: "backoff_inv init_world"
  by (simp add: backoff_inv_def init_world_def)

lemma backoff_inv_step:
  assumes inv: "backoff_inv w" and st: "step cfg e w = Some w'"
  shows "backoff_inv w'"
proof -
  from inv have "0 \<le> clock w" by (simp add: backoff_inv_def)
  then have pos: "0 \<le> clock w div 1000" by (simp add: pos_imp_zdiv_nonneg_iff)
  show ?thesis
  proof (cases e)
    case (Adv ev res)
    with st have w': "w' = onBle cfg ev res w" by (simp add: step_Adv)
    from onBle_effect [of cfg ev res w] inv show ?thesis
      unfolding w' by (auto simp: backoff_inv_def now_sec_def)
  next
    case (Fire h)
    with st have w': "w' = resetBusy (fire h w)"
      by (auto simp: step_Fire split: option.splits if_splits)
    from inv pos show ?thesis
      unfolding w'
      by (auto simp: backoff_inv_def now_sec_def resetBusy_effect fire_def Let_def
          split: if_splits)
  next
    case (Complete i r ec)
    with st have w': "w' = httpCallback r ec (w\<lparr>calls := filter (\<lambda>c. call_id c \<noteq> i) (calls w)\<rparr>)"
      by (auto simp: step_Complete split: if_splits)
    from inv pos show ?thesis
      unfolding w'
      by (auto simp: backoff_inv_def now_sec_def httpCallback_effect Let_def split: if_splits)
  next
    case Cleanup
    with st have "w' = cleanupLastSent cfg w" by (simp add: step_Cleanup)
    with cleanup_effect [of cfg w] inv show ?thesis by (auto simp: backoff_inv_def now_sec_def)
  next
    case (Tick ms)
    with st have w': "w' = w\<lparr>clock := clock w + int ms\<rparr>" by (simp add: step_Tick)
    have "now_sec w \<le> now_sec w'" unfolding w' by (rule now_sec_mono) simp
    with inv show ?thesis
      unfolding w' by (auto simp: backoff_inv_def split: if_splits)
  qed
qed

lemma backoff_write:
  assumes "step cfg e w = Some w'"
  shows "backoffUntil w' = backoffUntil w \<or> backoffUntil w' = 0 \<or> now_sec w' < backoffUntil w'"
proof (cases e)
  case (Adv ev res)
  with assms have w': "w' = onBle cfg ev res w" by (simp add: step_Adv)
  from onBle_effect [of cfg ev res w] show ?thesis
    unfolding w' by auto
next
  case (Fire h)
  with assms have w': "w' = resetBusy (fire h w)"
    by (auto simp: step_Fire split: option.splits if_splits)
  show ?thesis
    unfolding w' by (simp add: resetBusy_effect fire_def Let_def now_sec_def)
next
  case (Complete i r ec)
  with assms have w': "w' = httpCallback r ec (w\<lparr>calls := filter (\<lambda>c. call_id c \<noteq> i) (calls w)\<rparr>)"
    by (auto simp: step_Complete split: if_splits)
  show ?thesis
    unfolding w' by (simp add: httpCallback_effect Let_def now_sec_def)
next
  case Cleanup
  with assms have "w' = cleanupLastSent cfg w" by (simp add: step_Cleanup)
  with cleanup_effect [of cfg w] show ?thesis by auto
next
  case (Tick ms)
  with assms show ?thesis by (auto simp: step_Tick)
qed

text \<open>
  Claim C8, as amended. In every reachable state \<open>backoffUntil\<close> is 0 or, with more than
  three consecutive errors, a past or present moment plus the cooldown min(60, 5 * count)
  for the current count. Every event leaves it alone, sets it to 0, or sets it to a time
  strictly after the current one. Nothing resets it when that time has passed.
\<close>

theorem backoffUntil_values:
  assumes "run cfg es init_world = Some w"
  shows "(backoffUntil w = 0 \<or>
          3 < consecutiveErrors w \<and>
          min 60 (consecutiveErrors w * 5) \<le> backoffUntil w \<and>
          backoffUntil w \<le> now_sec w + min 60 (consecutiveErrors w * 5))
    \<and> (\<forall>e w'. step cfg e w = Some w' \<longrightarrow>
          backoffUntil w' = backoffUntil w \<or> backoffUntil w' = 0 \<or> now_sec w' < backoffUntil w')"
proof -
  have "backoff_inv w"
    using assms by (rule run_invariant [where P = backoff_inv, OF _ backoff_inv_init backoff_inv_step])
  then have "backoffUntil w = 0 \<or>
          3 < consecutiveErrors w \<and>
          min 60 (consecutiveErrors w * 5) \<le> backoffUntil w \<and>
          backoffUntil w \<le> now_sec w + min 60 (consecutiveErrors w * 5)"
    by (auto simp: backoff_inv_def split: if_splits)
  then show ?thesis using backoff_write by blast
qed

lemma failures_run_result:
  "run default_config failures_run init_world =
     Some \<lparr>busy = False, lastSent = [(''AA:BB:CC:DD:EE:FF'', 115)],
       currentMac = ''AA:BB:CC:DD:EE:FF'', busyTimer = None, consecutiveErrors = 4,
       backoffUntil = 135, clock = 136000, timers = [], nextTimer = 4,
       calls = [], nextCall = 4\<rparr>"
  by (simp add: failures_run_def run_eval)

theorem backoffUntil_values_witness:
  "map_option (\<lambda>w. (consecutiveErrors w, backoffUntil w, now_sec w))
     (run default_config failures_run init_world) = Some (4, 135, 136)
   \<and> 20 \<le> backoffUntil (the (run default_config failures_run init_world))
   \<and> backoffUntil (the (run default_config failures_run init_world)) \<le> 136 + 20"
proof -
  from backoffUntil_values [OF failures_run_result]
  have "20 \<le> backoffUntil (the (run default_config failures_run init_world))
    \<and> backoffUntil (the (run default_config failures_run init_world)) \<le> 136 + 20"
    by (simp add: failures_run_result now_sec_def)
  then show ?thesis by (simp add: failures_run_result now_sec_def)
qed

theorem cooldown_in_the_past_counterexample:
  "map_option (\<lambda>w. (consecutiveErrors w, backoffUntil w, now_sec w))
     (run default_config failures_run init_world) = Some (4, 135, 136)
   \<and> map_option (\<lambda>w. backoffUntil w = 0 \<or> now_sec w \<le> backoffUntil w)
     (run default_config failures_run init_world) = Some False"
  by (simp add: failures_run_result now_sec_def)

section \<open>The watchdog\<close>

lemma quiet_enabled: "quiet e \<Longrightarrow> \<exists>w'. step cfg e w = Some w'"
  by (cases e) (simp_all add: quiet_def step_def)

lemma quiet_run:
  assumes "list_all quiet es" and "busy w"
  shows "\<exists>w'. run cfg es w = Some w' \<and> busy w' \<and> busyTimer w' = busyTimer w
    \<and> timers w' = timers w \<and> calls w' = calls w
    \<and> consecutiveErrors w' = consecutiveErrors w \<and> backoffUntil w' = backoffUntil w
    \<and> nextTimer w' = nextTimer w \<and> clock w \<le> clock w'"
  using assms
proof (induction es arbitrary: w)
  case Nil
  then show ?case by simp
next
  case (Cons e es)
  then have q: "quiet e" "list_all quiet es" by simp_all
  from quiet_enabled [OF q(1)] obtain u where u: "step cfg e w = Some u" by blast
  note k = quiet_keeps_busy [OF u q(1) Cons.prems(2)]
  from k have "busy u" by simp
  from Cons.IH [OF q(2) this] obtain w' where w': "run cfg es u = Some w'" "busy w'"
    "busyTimer w' = busyTimer u" "timers w' = timers u" "calls w' = calls u"
    "consecutiveErrors w' = consecutiveErrors u" "backoffUntil w' = backoffUntil u"
    "nextTimer w' = nextTimer u" "clock u \<le> clock w'"
    by blast
  with k u show ?case by simp
qed

lemma retired_step:
  assumes "retired h w" and "step cfg e w = Some w'"
  shows "retired h w' \<and> e \<noteq> Fire h"
proof (cases e)
  case (Adv ev res)
  with assms have w': "w' = onBle cfg ev res w" by (simp add: step_Adv)
  from onBle_effect [of cfg ev res w] assms(1) Adv show ?thesis
    unfolding w' by (auto simp: retired_def)
next
  case (Fire k)
  with assms(2) obtain due where due: "map_of (timers w) k = Some due" and w': "w' = resetBusy (fire k w)"
    by (auto simp: step_Fire split: option.splits if_splits)
  from due have "k \<in> fst ` set (timers w)" by (metis map_of_eq_None_iff option.distinct(1))
  with assms(1) have "k \<noteq> h" by (auto simp: retired_def)
  with assms(1) Fire show ?thesis
    unfolding w' by (auto simp: retired_def resetBusy_effect fire_def Let_def)
next
  case (Complete i r ec)
  with assms(2) have w': "w' = httpCallback r ec (w\<lparr>calls := filter (\<lambda>c. call_id c \<noteq> i) (calls w)\<rparr>)"
    by (auto simp: step_Complete split: if_splits)
  from assms(1) Complete show ?thesis
    unfolding w' by (auto simp: retired_def httpCallback_effect Let_def split: option.splits)
next
  case Cleanup
  with assms(2) have "w' = cleanupLastSent cfg w" by (simp add: step_Cleanup)
  with cleanup_effect [of cfg w] assms(1) Cleanup show ?thesis by (auto simp: retired_def)
next
  case (Tick ms)
  with assms show ?thesis by (auto simp: step_Tick retired_def)
qed

lemma retired_run:
  assumes "retired h w" and "run cfg es w = Some w'"
  shows "Fire h \<notin> set es"
  using assms
proof (induction es arbitrary: w)
  case Nil
  then show ?case by simp
next
  case (Cons e es)
  then obtain u where u: "step cfg e w = Some u" "run cfg es u = Some w'"
    by (auto split: option.splits)
  from retired_step [OF Cons.prems(1) u(1)] have "retired h u" "e \<noteq> Fire h" by simp_all
  with Cons.IH u(2) show ?case by auto
qed

lemma accepted_send:
  assumes sl: "slot_inv w" and st: "step cfg (Adv ev res) w = Some w1"
    and acc: "length (calls w) < length (calls w1)"
  shows "busy w1 \<and> busyTimer w1 = Some (nextTimer w)
    \<and> timers w1 = [(nextTimer w, clock w + 10000)] \<and> nextTimer w1 = nextTimer w + 1
    \<and> consecutiveErrors w1 = consecutiveErrors w \<and> backoffUntil w1 = backoffUntil w
    \<and> clock w1 = clock w"
proof -
  from st have w1: "w1 = onBle cfg ev res w" by (simp add: step_Adv)
  from accept_needs_idle [OF st acc] have idle: "\<not> busy w" by simp
  with sl have "busyTimer w = None" by (simp add: slot_inv_def)
  with sl have "timers w = []" by (simp add: slot_inv_def)
  with onBle_effect [of cfg ev res w] acc show ?thesis
    unfolding w1 by auto
qed

text \<open>
  Claim C3, as amended. Take a reachable state in which a send is accepted, and let any
  number of events follow that are neither completions nor timers: no completion runs, be
  it of this send or a late one of an earlier send. Then the watchdog armed by that
  send is still the one armed timer, due ten seconds after the send, and no failure has
  been counted. It cannot fire before it is due. When it fires, \<open>busy\<close> is cleared, the
  handle is dropped, no timer is left armed and exactly one failure is counted, with the
  backoff applied for the new count; and whatever happens afterwards, it never fires again.
\<close>

theorem watchdog_recovery:
  assumes "run cfg es0 init_world = Some w"
    and "step cfg (Adv ev res) w = Some w1" and "length (calls w) < length (calls w1)"
    and "list_all quiet es"
  shows "\<exists>w2. run cfg es w1 = Some w2
     \<and> busy w2 \<and> busyTimer w2 = Some (nextTimer w)
     \<and> timers w2 = [(nextTimer w, clock w + 10000)]
     \<and> consecutiveErrors w2 = consecutiveErrors w \<and> backoffUntil w2 = backoffUntil w
     \<and> (clock w2 < clock w + 10000 \<longrightarrow> step cfg (Fire (nextTimer w)) w2 = None)
     \<and> (clock w + 10000 \<le> clock w2 \<longrightarrow>
          (\<exists>w3. step cfg (Fire (nextTimer w)) w2 = Some w3
             \<and> \<not> busy w3 \<and> busyTimer w3 = None \<and> timers w3 = []
             \<and> consecutiveErrors w3 = consecutiveErrors w + 1
             \<and> backoffUntil w3 =
                 (if consecutiveErrors w + 1 \<le> 3 then backoffUntil w
                  else now_sec w2 + min 60 ((consecutiveErrors w + 1) * 5))
             \<and> (\<forall>es' w4. run cfg es' w3 = Some w4 \<longrightarrow> Fire (nextTimer w) \<notin> set es')))"
proof -
  let ?h = "nextTimer w"
  from assms(1) have sl: "slot_inv w" by (rule slot_inv_run)
  note a = accepted_send [OF sl assms(2,3)]
  from a have b1: "busy w1" by simp
  from quiet_run [OF assms(4) b1, of cfg] obtain w2 where w2: "run cfg es w1 = Some w2" "busy w2"
    "busyTimer w2 = busyTimer w1" "timers w2 = timers w1" "calls w2 = calls w1"
    "consecutiveErrors w2 = consecutiveErrors w1" "backoffUntil w2 = backoffUntil w1"
    "nextTimer w2 = nextTimer w1" "clock w1 \<le> clock w2"
    by blast
  have t2: "timers w2 = [(?h, clock w + 10000)]" using w2 a by simp
  have early: "step cfg (Fire ?h) w2 = None" if "clock w2 < clock w + 10000"
    using that t2 by (simp add: step_Fire)
  have late: "\<exists>w3. step cfg (Fire ?h) w2 = Some w3
             \<and> \<not> busy w3 \<and> busyTimer w3 = None \<and> timers w3 = []
             \<and> consecutiveErrors w3 = consecutiveErrors w + 1
             \<and> backoffUntil w3 =
                 (if consecutiveErrors w + 1 \<le> 3 then backoffUntil w
                  else now_sec w2 + min 60 ((consecutiveErrors w + 1) * 5))
             \<and> (\<forall>es' w4. run cfg es' w3 = Some w4 \<longrightarrow> Fire ?h \<notin> set es')"
    if due: "clock w + 10000 \<le> clock w2"
  proof -
    let ?w3 = "resetBusy (fire ?h w2)"
    from due t2 have s: "step cfg (Fire ?h) w2 = Some ?w3" by (simp add: step_Fire)
    have f: "\<not> busy ?w3" "busyTimer ?w3 = None" "timers ?w3 = []"
      "consecutiveErrors ?w3 = consecutiveErrors w + 1"
      "backoffUntil ?w3 =
         (if consecutiveErrors w + 1 \<le> 3 then backoffUntil w
          else now_sec w2 + min 60 ((consecutiveErrors w + 1) * 5))"
      "nextTimer ?w3 = nextTimer w + 1"
      using t2 w2 a by (simp_all add: resetBusy_effect fire_def Let_def now_sec_def)
    then have "retired ?h ?w3" by (simp add: retired_def)
    then have "\<forall>es' w4. run cfg es' ?w3 = Some w4 \<longrightarrow> Fire ?h \<notin> set es'"
      using retired_run by blast
    with s f show ?thesis by blast
  qed
  from w2 a t2 early late show ?thesis by auto
qed

lemma default_max: "MAX_LASTSENT_ENTRIES default_config = 50"
  by (simp add: default_config_def)

theorem watchdog_recovery_witness:
  "list_all quiet waiting_run
   \<and> map_option (\<lambda>w. (busy w, busyTimer w, timers w, consecutiveErrors w, backoffUntil w))
        (run default_config (Tick 100000 # victron_event # waiting_run) init_world)
       = Some (True, Some 0, [(0, 110000)], 0, 0)
   \<and> run default_config [Tick 100000, victron_event, Tick 4000, Fire 0] init_world = None
   \<and> map_option (\<lambda>w. (busy w, busyTimer w, timers w, consecutiveErrors w, backoffUntil w))
        (run default_config (Tick 100000 # victron_event # waiting_run @ [Fire 0]) init_world)
       = Some (False, None, [], 1, 0)
   \<and> run default_config (Tick 100000 # victron_event # waiting_run @ [Fire 0, Fire 0]) init_world
       = None"
proof -
  let ?c = "\<lparr>call_id = 0, watchdog = Some 0, timed_out = False,
              tag_mac = ''AA:BB:CC:DD:EE:FF'', tag_rssi = - 67,
              tag_data = ''020106FF9904'', tag_ts = 100\<rparr>"
  let ?W = "init_world\<lparr>clock := 100000\<rparr>"
  let ?W1 = "\<lparr>busy = True, lastSent = [(''AA:BB:CC:DD:EE:FF'', 100)],
       currentMac = ''AA:BB:CC:DD:EE:FF'', busyTimer = Some 0, consecutiveErrors = 0,
       backoffUntil = 0, clock = 100000, timers = [(0, 110000)], nextTimer = 1,
       calls = [?c], nextCall = 1\<rparr>"
  let ?W2 = "?W1\<lparr>clock := 110000\<rparr>"
  have r0: "run default_config [Tick 100000] init_world = Some ?W"
    by (simp add: step_Tick init_world_def)
  have st: "step default_config (Adv SCAN_RESULT (Some victron_adv)) ?W = Some ?W1"
    by (simp add: run_eval)
  have acc: "length (calls ?W) < length (calls ?W1)"
    by (simp add: init_world_def)
  have q: "list_all quiet waiting_run"
    by (simp add: waiting_run_def quiet_def victron_event_def)
  have r2: "run default_config waiting_run ?W1 = Some ?W2"
    by (simp add: waiting_run_def run_eval cleanupLastSent_def default_max)
  have r1: "run default_config (Tick 100000 # victron_event # es) init_world
      = run default_config es ?W1" for es
    using st by (simp add: victron_event_def step_Tick init_world_def)
  have h: "nextTimer ?W = 0" "clock ?W + 10000 = 110000" "consecutiveErrors ?W = 0"
    "backoffUntil ?W = 0" "clock ?W2 = 110000"
    by (simp_all add: init_world_def)
  from watchdog_recovery [OF r0 st acc q] r2
  obtain w3 where w3: "step default_config (Fire 0) ?W2 = Some w3" "\<not> busy w3"
    "busyTimer w3 = None" "timers w3 = []" "consecutiveErrors w3 = 1" "backoffUntil w3 = 0"
    "\<forall>es' w4. run default_config es' w3 = Some w4 \<longrightarrow> Fire 0 \<notin> set es'"
    unfolding h by auto
  have again: "step default_config (Fire 0) w3 = None"
  proof (cases "step default_config (Fire 0) w3")
    case None
    then show ?thesis .
  next
    case (Some w4)
    then have "run default_config [Fire 0] w3 = Some w4" by simp
    with w3(7) have "Fire 0 \<notin> set [Fire 0]" by blast
    then show ?thesis by simp
  qed
  have c1: "run default_config (Tick 100000 # victron_event # waiting_run) init_world = Some ?W2"
    by (simp only: r1 r2)
  have c2: "run default_config [Tick 100000, victron_event, Tick 4000, Fire 0] init_world = None"
    by (simp only: r1) (simp add: run_eval)
  have c3: "run default_config (Tick 100000 # victron_event # waiting_run @ [Fire 0]) init_world
      = Some w3"
    by (simp only: r1) (simp only: run_append r2 option.simps run.simps w3(1))
  have c4: "run default_config (Tick 100000 # victron_event # waiting_run @ [Fire 0, Fire 0]) init_world
      = None"
    by (simp only: r1) (simp only: run_append r2 option.simps run.simps w3(1) again)
  show ?thesis
    unfolding c1 c2 c3 c4 using q w3 by simp
qed

theorem watchdog_disarmed_counterexample:
  "run default_config disarmed_run init_world =
     Some \<lparr>busy = False, lastSent = [(''AA:BB:CC:DD:EE:FF'', 110)],
       currentMac = ''AA:BB:CC:DD:EE:FF'', busyTimer = None, consecutiveErrors = 0,
       backoffUntil = 0, clock = 110000, timers = [], nextTimer = 2,
       calls = [\<lparr>call_id = 1, watchdog = Some 1, timed_out = False,
                 tag_mac = ''AA:BB:CC:DD:EE:FF'', tag_rssi = - 67,
                 tag_data = ''020106FF9904'', tag_ts = 110\<rparr>],
       nextCall = 2\<rparr>
   \<and> run default_config (disarmed_run @ [Tick 10000, Fire 1]) init_world = None
   \<and> run default_config (disarmed_run @ [Tick 60000, Fire 1]) init_world = None"
proof -
  have a: "run default_config disarmed_run init_world =
     Some \<lparr>busy = False, lastSent = [(''AA:BB:CC:DD:EE:FF'', 110)],
       currentMac = ''AA:BB:CC:DD:EE:FF'', busyTimer = None, consecutiveErrors = 0,
       backoffUntil = 0, clock = 110000, timers = [], nextTimer = 2,
       calls = [\<lparr>call_id = 1, watchdog = Some 1, timed_out = False,
                 tag_mac = ''AA:BB:CC:DD:EE:FF'', tag_rssi = - 67,
                 tag_data = ''020106FF9904'', tag_ts = 110\<rparr>],
       nextCall = 2\<rparr>"
    by (simp add: disarmed_run_def run_eval)
  show ?thesis
    by (simp add: run_append a step_Tick step_Fire)
qed

section \<open>The keys of the store\<close>

lemma store_keys_step:
  assumes "distinct (map fst (lastSent w))" and "step cfg e w = Some w'"
  shows "distinct (map fst (lastSent w'))"
proof (cases e)
  case (Adv ev res)
  with assms(2) have w': "w' = onBle cfg ev res w" by (simp add: step_Adv)
  show ?thesis
  proof (cases res)
    case None
    with assms(1) show ?thesis by (simp add: w' onBle_def)
  next
    case (Some r)
    show ?thesis
    proof (cases "addr r")
      case None
      with Some assms(1) show ?thesis by (simp add: w' onBle_def)
    next
      case a: (Some a)
      from onBle_cases [OF a, of cfg ev w] assms(1) Some show ?thesis
        unfolding w' by (auto simp: distinct_update)
    qed
  qed
next
  case (Fire h)
  with assms show ?thesis
    by (auto simp: step_Fire resetBusy_effect fire_def Let_def split: option.splits if_splits)
next
  case (Complete i r ec)
  with assms show ?thesis
    by (auto simp: step_Complete httpCallback_effect Let_def split: if_splits)
next
  case Cleanup
  with assms(2) have w': "w' = cleanupLastSent cfg w" by (simp add: step_Cleanup)
  show ?thesis
  proof (cases "length (lastSent w) \<le> MAX_LASTSENT_ENTRIES cfg")
    case True
    with assms(1) show ?thesis by (simp add: w' cleanupLastSent_def)
  next
    case False
    with assms(1) show ?thesis
      unfolding w' using cleanup_unfold [of cfg w] by (simp add: distinct_map_filter)
  qed
next
  case (Tick ms)
  with assms show ?thesis by (auto simp: step_Tick)
qed

lemma store_keys_distinct:
  assumes "run cfg es init_world = Some w"
  shows "distinct (map fst (lastSent w))"
  using assms
proof (rule run_invariant [where P = "\<lambda>w. distinct (map fst (lastSent w))"])
  show "distinct (map fst (lastSent init_world))" by (simp add: init_world_def)
qed (rule store_keys_step)

section \<open>Eviction inside the rate-limit interval\<close>

lemma toUpperCase_append: "toUpperCase (xs @ ys) = toUpperCase xs @ toUpperCase ys"
  by (simp add: toUpperCase_def)

lemma upper_hex_fixed_all:
  "list_all (\<lambda>k. upperChar (''0123456789ABCDEF'' ! k) = ''0123456789ABCDEF'' ! k) [0..<16]"
  by code_simp

lemma upper_hex_fixed: "k < 16 \<Longrightarrow> upperChar (''0123456789ABCDEF'' ! k) = ''0123456789ABCDEF'' ! k"
  using upper_hex_fixed_all by (simp add: list_all_iff)

lemma nth_address_key:
  assumes "n < 256"
  shows "deviceKey (nth_address n) = nth_address n"
proof -
  from assms have "n div 16 < 16" by simp
  then have b: "toUpperCase (spec_hex_byte n) = spec_hex_byte n"
    by (simp add: spec_hex_byte_def toUpperCase_def upper_hex_fixed)
  have a: "toUpperCase '':00:AA:BB:CC:DD'' = '':00:AA:BB:CC:DD''" by code_simp
  have "sublist '':'' (spec_hex_byte n @ '':'' @ ''00:AA:BB:CC:DD'')"
    by (rule sublist_appendI)
  then have "indexOf (spec_hex_byte n @ '':00:AA:BB:CC:DD'') '':'' \<noteq> - 1"
    by (simp add: indexOf_sublist)
  then show ?thesis
    unfolding deviceKey_def nth_address_def Let_def toUpperCase_append a b by simp
qed

lemma hex_digits_distinct: "distinct ''0123456789ABCDEF''"
  by simp

lemma nth_address_inj:
  assumes "n < 256" "m < 256" "nth_address n = nth_address m"
  shows "n = m"
proof -
  from assms(1,2) have b: "n div 16 < 16" "m div 16 < 16" "n mod 16 < 16" "m mod 16 < 16"
    by simp_all
  from assms(3) have "''0123456789ABCDEF'' ! (n div 16) = ''0123456789ABCDEF'' ! (m div 16)"
    and "''0123456789ABCDEF'' ! (n mod 16) = ''0123456789ABCDEF'' ! (m mod 16)"
    by (simp_all add: nth_address_def spec_hex_byte_def)
  with b have "n div 16 = m div 16" "n mod 16 = m mod 16"
    using nth_eq_iff_index_eq [OF hex_digits_distinct] by simp_all
  then show ?thesis by (metis div_mult_mod_eq)
qed

lemma nth_address_other:
  "nth_address n \<noteq> ''AA:BB:CC:DD:EE:FF''" "''AA:BB:CC:DD:EE:FF'' \<noteq> nth_address n"
  by (simp_all add: nth_address_def spec_hex_byte_def)

lemma onBle_nth_device:
  assumes "MFG cfg = MFG default_config" and "n < 256"
  shows "onBle cfg SCAN_RESULT (Some (nth_device n)) w =
    (if now_sec w - lastSentOr0 (lastSent w) (nth_address n) < RATE_LIMIT_SEC cfg
     then w
     else send (nth_address n) (- 67) ''020106FF9904''
            (w\<lparr>lastSent := AList.update (nth_address n) (now_sec w) (lastSent w)\<rparr>))"
proof -
  have "nth_address n \<noteq> []" by (simp add: nth_address_def)
  with onBle_unfold [of "nth_device n" "nth_address n" victron_payload cfg w] assms
  show ?thesis
    by (simp add: nth_device_def victron_fields victron_hex victron_has nth_address_key)
qed

lemma crowd_effect:
  assumes "busy w" and "RATE_LIMIT_SEC cfg \<le> now_sec w" and "MFG cfg = MFG default_config"
    and "\<forall>n \<in> set ns. n < 256" and "distinct ns"
    and "\<forall>n \<in> set ns. nth_address n \<notin> fst ` set (lastSent w)"
  shows "run cfg (map (\<lambda>n. Adv SCAN_RESULT (Some (nth_device n))) ns) w =
    Some (w\<lparr>lastSent := lastSent w @ map (\<lambda>n. (nth_address n, now_sec w)) ns\<rparr>)"
  using assms(1,2,4,5,6)
proof (induction ns arbitrary: w)
  case Nil
  then show ?case by simp
next
  case (Cons n ns)
  let ?u = "w\<lparr>lastSent := lastSent w @ [(nth_address n, now_sec w)]\<rparr>"
  from Cons.prems have n: "n < 256" and fresh: "nth_address n \<notin> fst ` set (lastSent w)"
    by simp_all
  from fresh have "map_of (lastSent w) (nth_address n) = None" by (simp add: map_of_eq_None_iff)
  then have zero: "lastSentOr0 (lastSent w) (nth_address n) = 0" by (simp add: lastSentOr0_def)
  have "onBle cfg SCAN_RESULT (Some (nth_device n)) w = ?u"
    using Cons.prems(1,2) zero
    by (simp add: onBle_nth_device [OF assms(3) n] update_fresh [OF fresh] send_def)
  then have st: "step cfg (Adv SCAN_RESULT (Some (nth_device n))) w = Some ?u"
    by (simp add: step_Adv)
  have "\<forall>m \<in> set ns. nth_address m \<notin> fst ` set (lastSent ?u)"
  proof
    fix m assume m: "m \<in> set ns"
    with Cons.prems have "m < 256" "m \<noteq> n" "nth_address m \<notin> fst ` set (lastSent w)" by auto
    with n nth_address_inj [of m n] show "nth_address m \<notin> fst ` set (lastSent ?u)" by auto
  qed
  with Cons.IH [of ?u] Cons.prems
  have "run cfg (map (\<lambda>n. Adv SCAN_RESULT (Some (nth_device n))) ns) ?u =
    Some (?u\<lparr>lastSent := lastSent ?u @ map (\<lambda>n. (nth_address n, now_sec ?u)) ns\<rparr>)"
    by simp
  with st show ?case by simp
qed

lemma cleanup_evicts_head:
  assumes ls: "lastSent w = (k, v) # rest" and len: "length rest = MAX_LASTSENT_ENTRIES cfg"
    and old: "\<forall>e \<in> set rest. v \<le> snd e" and k: "k \<notin> fst ` set rest"
  shows "cleanupLastSent cfg w = w\<lparr>lastSent := rest\<rparr>"
proof -
  let ?now = "now_sec w"
  let ?f = "\<lambda>a :: string \<times> int. - snd a"
  let ?ents = "map (\<lambda>k'. (k', ageOf ?now (lastSent w) k')) (map fst rest)"
  have head: "ageOf ?now ((k, v) # rest) k = ?now - v" by (simp add: ageOf_def)
  have "?f (k, ?now - v) \<le> ?f x" if "x \<in> set (sort_key ?f ?ents)" for x
  proof -
    from that obtain k' where k': "k' \<in> fst ` set rest" "x = (k', ageOf ?now (lastSent w) k')"
      by auto
    from k'(1) have "k' \<in> fst ` set (lastSent w)" by (auto simp: ls)
    then obtain v' where v': "map_of (lastSent w) k' = Some v'"
      by (metis map_of_eq_None_iff not_Some_eq)
    then have "(k', v') \<in> set (lastSent w)" by (rule map_of_SomeD)
    with old have "v \<le> v'" by (auto simp: ls)
    with k'(2) v' show ?thesis by (simp add: ageOf_def)
  qed
  then have "insort_key ?f (k, ?now - v) (sort_key ?f ?ents) = (k, ?now - v) # sort_key ?f ?ents"
    by (intro insort_is_Cons) blast
  then have srt: "sort_key ?f (map (\<lambda>k'. (k', ageOf ?now (lastSent w) k')) (map fst (lastSent w)))
      = (k, ?now - v) # sort_key ?f ?ents"
    by (simp add: ls head)
  have "AList.delete k ((k, v) # rest) = rest"
    using k by (force simp: AList.delete_eq filter_id_conv)
  with len srt show ?thesis
    by (simp add: cleanupLastSent_def Let_def ls)
qed

lemma run_append_Some: "run cfg es w = Some u \<Longrightarrow> run cfg (es @ fs) w = run cfg fs u"
  by (simp add: run_append)

lemma run_Cons_Some: "step cfg e w = Some u \<Longrightarrow> run cfg (e # es) w = run cfg es u"
  by simp

lemma eviction_run_result:
  "run default_config eviction_run init_world =
     Some \<lparr>busy = True,
       lastSent = map (\<lambda>n. (nth_address n, 101)) [0..<50] @ [(''AA:BB:CC:DD:EE:FF'', 102)],
       currentMac = ''AA:BB:CC:DD:EE:FF'', busyTimer = Some 1, consecutiveErrors = 0,
       backoffUntil = 0, clock = 102000, timers = [(1, 112000)], nextTimer = 2,
       calls = [\<lparr>call_id = 1, watchdog = Some 1, timed_out = False,
                 tag_mac = ''AA:BB:CC:DD:EE:FF'', tag_rssi = - 67,
                 tag_data = ''020106FF9904'', tag_ts = 102\<rparr>],
       nextCall = 2\<rparr>"
proof -
  let ?c = "\<lparr>call_id = 0, watchdog = Some 0, timed_out = False,
              tag_mac = ''AA:BB:CC:DD:EE:FF'', tag_rssi = - 67,
              tag_data = ''020106FF9904'', tag_ts = 100\<rparr>"
  let ?W1 = "\<lparr>busy = True, lastSent = [(''AA:BB:CC:DD:EE:FF'', 100)],
       currentMac = ''AA:BB:CC:DD:EE:FF'', busyTimer = Some 0, consecutiveErrors = 0,
       backoffUntil = 0, clock = 101000, timers = [(0, 110000)], nextTimer = 1,
       calls = [?c], nextCall = 1\<rparr>"
  let ?crowd = "map (\<lambda>n. (nth_address n, 101 :: int)) [0..<50]"
  let ?W2 = "?W1\<lparr>lastSent := (''AA:BB:CC:DD:EE:FF'', 100) # ?crowd\<rparr>"
  let ?W3 = "?W1\<lparr>lastSent := ?crowd\<rparr>"
  have a: "run default_config [Tick 100000, victron_event, Tick 1000] init_world = Some ?W1"
    by (simp add: run_eval)
  have "run default_config crowd ?W1 =
      Some (?W1\<lparr>lastSent := lastSent ?W1 @ map (\<lambda>n. (nth_address n, now_sec ?W1)) [0..<50]\<rparr>)"
    unfolding crowd_def
    by (rule crowd_effect) (simp_all add: now_sec_def default_rate nth_address_other)
  then have b: "run default_config crowd ?W1 = Some ?W2"
    by (simp add: now_sec_def)
  have "cleanupLastSent default_config ?W2 = ?W2\<lparr>lastSent := ?crowd\<rparr>"
    by (rule cleanup_evicts_head) (auto simp: default_max nth_address_other)
  then have c: "step default_config Cleanup ?W2 = Some ?W3"
    by (simp add: step_Cleanup)
  have fresh: "''AA:BB:CC:DD:EE:FF'' \<notin> fst ` set ?crowd"
    using nth_address_other by force
  then have "map_of ?crowd ''AA:BB:CC:DD:EE:FF'' = None"
    by (rule map_of_eq_None_iff [THEN iffD2])
  then have zero: "lastSentOr0 ?crowd ''AA:BB:CC:DD:EE:FF'' = 0"
    by (simp add: lastSentOr0_def)
  have d: "run default_config [Tick 1000, Complete 0 (Some http_ok) 0, victron_event] ?W3 =
     Some \<lparr>busy = True,
       lastSent = ?crowd @ [(''AA:BB:CC:DD:EE:FF'', 102)],
       currentMac = ''AA:BB:CC:DD:EE:FF'', busyTimer = Some 1, consecutiveErrors = 0,
       backoffUntil = 0, clock = 102000, timers = [(1, 112000)], nextTimer = 2,
       calls = [\<lparr>call_id = 1, watchdog = Some 1, timed_out = False,
                 tag_mac = ''AA:BB:CC:DD:EE:FF'', tag_rssi = - 67,
                 tag_data = ''020106FF9904'', tag_ts = 102\<rparr>],
       nextCall = 2\<rparr>"
    using zero update_fresh [OF fresh, of 102]
    by (simp add: victron_event_def step_def onBle_victron_default default_rate send_def
        Timer_set_def Timer_clear_def HTTP_POST_def httpCallback_def now_sec_def Let_def http_ok_def
        del: upt_Suc map_append)
  have "run default_config eviction_run init_world
      = run default_config
          (crowd @ [Cleanup, Tick 1000, Complete 0 (Some http_ok) 0, victron_event]) ?W1"
    unfolding eviction_run_def by (rule run_append_Some [OF a])
  also have "\<dots> = run default_config
      [Cleanup, Tick 1000, Complete 0 (Some http_ok) 0, victron_event] ?W2"
    by (rule run_append_Some [OF b])
  also have "\<dots> = run default_config [Tick 1000, Complete 0 (Some http_ok) 0, victron_event] ?W3"
    by (rule run_Cons_Some [OF c])
  finally show ?thesis by (simp only: d)
qed

theorem rate_limit_counterexample:
  "map_of (lastSent init_world) (deviceKey ''aabbccddeeff'') = None
   \<and> hasMfg (hex victron_payload) (MFG default_config)
   \<and> run default_config [victron_event] init_world = Some init_world
   \<and> run default_config [Tick 3000, victron_event] init_world = Some (init_world\<lparr>clock := 3000\<rparr>)
   \<and> map_option (\<lambda>w. (map_of (lastSent w) ''AA:BB:CC:DD:EE:FF'', map tag_ts (calls w)))
        (run default_config [Tick 100000, victron_event] init_world) = Some (Some 100, [100])
   \<and> map_option (\<lambda>w. (map_of (lastSent w) ''AA:BB:CC:DD:EE:FF'', map tag_ts (calls w)))
        (run default_config eviction_run init_world) = Some (Some 102, [102])"
proof -
  have a: "map_of (lastSent init_world) (deviceKey ''aabbccddeeff'') = None"
    "hasMfg (hex victron_payload) (MFG default_config)"
    by (simp_all add: init_world_def victron_hex victron_has)
  have b: "run default_config [victron_event] init_world = Some init_world"
    "run default_config [Tick 3000, victron_event] init_world = Some (init_world\<lparr>clock := 3000\<rparr>)"
    by (simp_all add: run_eval)
  have c: "map_option (\<lambda>w. (map_of (lastSent w) ''AA:BB:CC:DD:EE:FF'', map tag_ts (calls w)))
        (run default_config [Tick 100000, victron_event] init_world) = Some (Some 100, [100])"
    by (simp add: run_eval)
  have "''AA:BB:CC:DD:EE:FF'' \<notin> fst ` set (map (\<lambda>n. (nth_address n, 101 :: int)) [0..<50])"
    using nth_address_other by force
  then have "map_of (map (\<lambda>n. (nth_address n, 101 :: int)) [0..<50]) ''AA:BB:CC:DD:EE:FF'' = None"
    by (rule map_of_eq_None_iff [THEN iffD2])
  then have d: "map_option (\<lambda>w. (map_of (lastSent w) ''AA:BB:CC:DD:EE:FF'', map tag_ts (calls w)))
        (run default_config eviction_run init_world) = Some (Some 102, [102])"
    by (simp add: eviction_run_result map_add_def del: upt_Suc)
  from a b c d show ?thesis by blast
qed

end
